theory Spec2Isabelle
  imports Complex_Main "HOL-Library.AList" "HOL-Library.Char_ord" "HOL-Library.List_Lexorder"
begin

section \<open>Membership tracker: \<open>track_clan\<close> of discordwelcomebot.py\<close>

text \<open>
  The tracker keeps three module-level containers keyed by clan tag
  (\<open>strict_join_cache\<close>, \<open>initialized_baseline\<close>, \<open>missing_counts\<close>) and one JSON file per
  clan written by \<open>save_strict_cache\<close>. A Python \<open>set\<close> of tags is modelled by a
  duplicate-free list; the list order stands for the iteration order that Python leaves
  unspecified, and no theorem below depends on it. The file store is modelled by the map
  \<open>members_file\<close> from clan tag to the list that \<open>save_json\<close> wrote; I/O failure of the
  storage collaborator is outside the model. An event stands for the attempt to send a
  notification or log line: the source catches and logs a failing send and goes on.
\<close>

type_synonym tag = string
type_synonym clan_tag = string

record member =
  m_tag :: "string option"
  m_name :: "string option"

datatype event =
    Join tag
  | Leave tag
  | LogEmptySkip clan_tag
  | LogBaselineInit clan_tag

record config =
  LEAVE_DEBOUNCE_COUNT :: int
  SKIP_EMPTY_MEMBER_LIST :: bool

record tracker_state =
  strict_join_cache :: "clan_tag \<rightharpoonup> tag list"
  initialized_baseline :: "clan_tag set"
  missing_counts :: "clan_tag \<rightharpoonup> (tag \<rightharpoonup> int)"
  members_file :: "clan_tag \<rightharpoonup> tag list"

text \<open>\<open>set.add\<close> and \<open>set.remove\<close> on the list representation.\<close>

definition set_add :: "'a \<Rightarrow> 'a list \<Rightarrow> 'a list" where
  "set_add x xs = (if x \<in> set xs then xs else xs @ [x])"

definition set_remove :: "'a \<Rightarrow> 'a list \<Rightarrow> 'a list" where
  "set_remove x xs = filter (\<lambda>y. y \<noteq> x) xs"

text \<open>
  \<open>current_tags = {m["tag"]: m.get("name") for m in member_list if m.get("tag")}\<close>:
  a member counts when its tag is present and non-empty; a dict keeps the position of the
  first insertion of a key and the value of the last, which is \<open>AList.update\<close>.
\<close>

definition add_member :: "(tag \<times> string option) list \<Rightarrow> member \<Rightarrow> (tag \<times> string option) list" where
  "add_member d m =
     (case m_tag m of
        None \<Rightarrow> d
      | Some t \<Rightarrow> if t = [] then d else AList.update t (m_name m) d)"

definition current_tags_of :: "member list \<Rightarrow> (tag \<times> string option) list" where
  "current_tags_of member_list = foldl add_member [] member_list"

text \<open>\<open>strict_join_cache.get(clan_tag, set())\<close>.\<close>

definition known_tags :: "tracker_state \<Rightarrow> clan_tag \<Rightarrow> tag list" where
  "known_tags s c = (case strict_join_cache s c of None \<Rightarrow> [] | Some ks \<Rightarrow> ks)"

text \<open>\<open>missing_counts.setdefault(clan_tag, {})\<close>: the dict of the clan, created when absent.\<close>

definition setdefault_missing :: "clan_tag \<Rightarrow> tracker_state \<Rightarrow> tracker_state" where
  "setdefault_missing c s =
     (case missing_counts s c of
        None \<Rightarrow> s\<lparr>missing_counts := (missing_counts s)(c \<mapsto> Map.empty)\<rparr>
      | Some _ \<Rightarrow> s)"

definition missing_of :: "tracker_state \<Rightarrow> clan_tag \<Rightarrow> (tag \<rightharpoonup> int)" where
  "missing_of s c = (case missing_counts s c of None \<Rightarrow> Map.empty | Some m \<Rightarrow> m)"

text \<open>\<open>missing.get(tag, 0)\<close>.\<close>

definition miss_count :: "tracker_state \<Rightarrow> clan_tag \<Rightarrow> tag \<Rightarrow> int" where
  "miss_count s c t = (case missing_of s c t of None \<Rightarrow> 0 | Some n \<Rightarrow> n)"

definition save_strict_cache :: "clan_tag \<Rightarrow> tracker_state \<Rightarrow> tracker_state" where
  "save_strict_cache c s = s\<lparr>members_file := (members_file s)(c \<mapsto> known_tags s c)\<rparr>"

text \<open>
  The join loop (lines 729-755); \<open>join_one\<close> is its body: one Join event per tag (either
  embed is a Join notification), the tag is added to the known set and its miss counter
  is popped.
\<close>

definition join_one :: "clan_tag \<Rightarrow> tag \<Rightarrow> tracker_state \<Rightarrow> tracker_state \<times> event list" where
  "join_one c t s =
     (let s1 = s\<lparr>strict_join_cache := (strict_join_cache s)(c \<mapsto> set_add t (known_tags s c))\<rparr>;
          s2 = setdefault_missing c s1
      in (s2\<lparr>missing_counts := (missing_counts s2)(c \<mapsto> (missing_of s2 c)(t := None))\<rparr>,
          [Join t]))"

fun join_loop :: "clan_tag \<Rightarrow> tag list \<Rightarrow> tracker_state \<Rightarrow> tracker_state \<times> event list" where
  "join_loop c [] s = (s, [])"
| "join_loop c (t # ts) s =
     (case join_one c t s of (s1, evs1) \<Rightarrow>
        (case join_loop c ts s1 of (s2, evs2) \<Rightarrow> (s2, evs1 @ evs2)))"

text \<open>
  The leave loop (lines 770-788); \<open>leave_one\<close> is its body: the counter of the candidate
  is incremented and stored; below the threshold the loop continues, otherwise a Leave
  event is sent, the tag is removed from the known set (which is saved) and the counter is
  popped.
\<close>

definition leave_one :: "int \<Rightarrow> clan_tag \<Rightarrow> tag \<Rightarrow> tracker_state \<Rightarrow> tracker_state \<times> event list" where
  "leave_one thr c t s =
     (let cnt = miss_count s c t + 1;
          s1 = s\<lparr>missing_counts := (missing_counts s)(c \<mapsto> (missing_of s c)(t \<mapsto> cnt))\<rparr>
      in if cnt < thr then (s1, [])
         else
           (let s2 = (if t \<in> set (known_tags s1 c)
                      then save_strict_cache c
                             (s1\<lparr>strict_join_cache :=
                                   (strict_join_cache s1)(c \<mapsto> set_remove t (known_tags s1 c))\<rparr>)
                      else s1)
            in (s2\<lparr>missing_counts := (missing_counts s2)(c \<mapsto> (missing_of s2 c)(t := None))\<rparr>,
                [Leave t])))"

fun leave_loop :: "int \<Rightarrow> clan_tag \<Rightarrow> tag list \<Rightarrow> tracker_state \<Rightarrow> tracker_state \<times> event list" where
  "leave_loop thr c [] s = (s, [])"
| "leave_loop thr c (t # ts) s =
     (case leave_one thr c t s of (s1, evs1) \<Rightarrow>
        (case leave_loop thr c ts s1 of (s2, evs2) \<Rightarrow> (s2, evs1 @ evs2)))"

text \<open>
  One iteration of the \<open>while\<close> loop after the sleep (lines 695-788). The argument is what
  \<open>get_clan_member_list\<close> returned (\<open>None\<close> for Python's \<open>None\<close>). \<open>prev_tags\<close> is the very
  set object stored in \<open>strict_join_cache\<close>, so after the join loop it holds the joined
  tags too; the candidate leaves are computed from it at that point, as in the source.
\<close>

definition track_clan_tick ::
  "config \<Rightarrow> clan_tag \<Rightarrow> member list option \<Rightarrow> tracker_state \<Rightarrow> tracker_state \<times> event list" where
  "track_clan_tick cfg c polled s =
     (case polled of
        None \<Rightarrow> (s, [])
      | Some member_list \<Rightarrow>
          if member_list = [] \<and> SKIP_EMPTY_MEMBER_LIST cfg then (s, [LogEmptySkip c])
          else
            (let current_tags = current_tags_of member_list;
                 prev_tags = known_tags s c
             in if prev_tags = [] then
                  (let s1 = s\<lparr>strict_join_cache :=
                                (strict_join_cache s)(c \<mapsto>
                                   (if current_tags \<noteq> [] then map fst current_tags else []))\<rparr>;
                       s2 = save_strict_cache c s1
                   in if c \<notin> initialized_baseline s2
                      then (s2\<lparr>initialized_baseline := insert c (initialized_baseline s2)\<rparr>,
                            [LogBaselineInit c])
                      else (s2, []))
                else
                  (let joins = filter (\<lambda>t. t \<notin> set prev_tags) (map fst current_tags)
                   in case join_loop c joins s of (s1, evs_join) \<Rightarrow>
                        (let s2 = (if joins \<noteq> [] then save_strict_cache c s1 else s1);
                             s3 = setdefault_missing c s2;
                             s4 = s3\<lparr>missing_counts :=
                                       (missing_counts s3)(c \<mapsto>
                                          fold (\<lambda>t m. m(t := None)) (map fst current_tags)
                                               (missing_of s3 c))\<rparr>;
                             candidate_leaves =
                               filter (\<lambda>t. t \<notin> set (map fst current_tags)) (known_tags s4 c)
                         in case leave_loop (LEAVE_DEBOUNCE_COUNT cfg) c candidate_leaves s4 of
                              (s5, evs_leave) \<Rightarrow> (s5, evs_join @ evs_leave)))))"

text \<open>The \<open>while\<close> loop over a sequence of poll results; events are collected in order.\<close>

fun track_clan_polls ::
  "config \<Rightarrow> clan_tag \<Rightarrow> member list option list \<Rightarrow> tracker_state \<Rightarrow> tracker_state \<times> event list" where
  "track_clan_polls cfg c [] s = (s, [])"
| "track_clan_polls cfg c (p # ps) s =
     (case track_clan_tick cfg c p s of (s1, evs1) \<Rightarrow>
        (case track_clan_polls cfg c ps s1 of (s2, evs2) \<Rightarrow> (s2, evs1 @ evs2)))"

text \<open>\<open>track_clan\<close> before the loop (line 689): the known set is loaded from the file.\<close>

definition track_clan_start :: "clan_tag \<Rightarrow> tracker_state \<Rightarrow> tracker_state" where
  "track_clan_start c s =
     s\<lparr>strict_join_cache :=
         (strict_join_cache s)(c \<mapsto> (case members_file s c of None \<Rightarrow> [] | Some ts \<Rightarrow> remdups ts))\<rparr>"

definition is_join :: "event \<Rightarrow> bool" where
  "is_join e = (case e of Join _ \<Rightarrow> True | _ \<Rightarrow> False)"

definition is_leave :: "event \<Rightarrow> bool" where
  "is_leave e = (case e of Leave _ \<Rightarrow> True | _ \<Rightarrow> False)"

definition mk_member :: "string \<Rightarrow> member" where
  "mk_member t = \<lparr>m_tag = Some t, m_name = Some t\<rparr>"

text \<open>
  The state in which the leave loop starts (after the join loop, the optional save and the
  reset of the counters of present tags), and the candidates it runs over; both are read
  off \<open>track_clan_tick\<close> and only serve to state lemmas about it.
\<close>

definition before_leaves :: "clan_tag \<Rightarrow> member list \<Rightarrow> tracker_state \<Rightarrow> tracker_state" where
  "before_leaves c member_list s =
     (let current_tags = current_tags_of member_list;
          joins = filter (\<lambda>t. t \<notin> set (known_tags s c)) (map fst current_tags);
          s1 = fst (join_loop c joins s);
          s2 = (if joins \<noteq> [] then save_strict_cache c s1 else s1);
          s3 = setdefault_missing c s2
      in s3\<lparr>missing_counts :=
              (missing_counts s3)(c \<mapsto>
                 fold (\<lambda>t m. m(t := None)) (map fst current_tags) (missing_of s3 c))\<rparr>)"

definition candidate_leaves :: "clan_tag \<Rightarrow> member list \<Rightarrow> tracker_state \<Rightarrow> tag list" where
  "candidate_leaves c member_list s =
     filter (\<lambda>t. t \<notin> set (map fst (current_tags_of member_list)))
            (known_tags (before_leaves c member_list s) c)"

text \<open>The file of the clan holds the in-memory known set.\<close>

definition saved :: "tracker_state \<Rightarrow> clan_tag \<Rightarrow> bool" where
  "saved s c = (members_file s c = Some (known_tags s c))"

text \<open>Concrete configurations, states and polls used in the scenarios of the spec.\<close>

definition threshold2 :: "bool \<Rightarrow> config" where
  "threshold2 skip = \<lparr>LEAVE_DEBOUNCE_COUNT = 2, SKIP_EMPTY_MEMBER_LIST = skip\<rparr>"

definition fresh_state :: tracker_state where
  "fresh_state = \<lparr>strict_join_cache = Map.empty, initialized_baseline = {},
                  missing_counts = Map.empty, members_file = Map.empty\<rparr>"

definition persisted_AB :: "clan_tag \<Rightarrow> tracker_state" where
  "persisted_AB c = track_clan_start c (fresh_state\<lparr>members_file := [c \<mapsto> [''#A'', ''#B'']]\<rparr>)"

definition poll :: "string list \<Rightarrow> member list option" where
  "poll ts = Some (map mk_member ts)"

definition emptied_run :: "tracker_state \<times> event list" where
  "emptied_run =
     track_clan_polls (threshold2 False) ''#C'' [poll [''#A''], poll [], poll []] fresh_state"

section \<open>Donation delta engine: \<open>calculate_monthly_donations\<close> of donations.py\<close>

text \<open>
  Snapshots are modelled as \<open>create_donation_snapshot\<close> writes them: a dict with the keys
  \<open>date\<close> (the month, \<open>YYYY-MM\<close>), \<open>timestamp\<close> and \<open>members\<close>, the latter a dict from
  player tag to an entry with the keys \<open>name\<close>, \<open>seasonal\<close> and \<open>lifetime\<close>. Every key
  the writer sets is present, so an entry is a non-empty (truthy) dict and the defaults of
  the reader's \<open>.get\<close> calls never apply. A dict is an association list in insertion
  order; Python's unbounded integers are \<open>int\<close>; month keys are compared as strings,
  character by character, as \<open>sorted\<close> does.
\<close>

record lifetime_totals =
  troops_donated :: int
  spells_donated :: int
  siege_donated :: int
  total_donated :: int

record member_entry =
  name :: string
  seasonal :: int
  lifetime :: lifetime_totals

record monthly_entry = member_entry +
  monthly :: int

record snapshot =
  date :: string
  timestamp :: string
  members :: "(tag \<times> member_entry) list"

record monthly_report =
  r_month :: string
  r_members :: "(tag \<times> monthly_entry) list"
  r_total_monthly :: int
  r_note :: "string option"

text \<open>\<open>next((i for i, s in enumerate(xs) if P(s)), None)\<close>.\<close>

fun first_index :: "('a \<Rightarrow> bool) \<Rightarrow> 'a list \<Rightarrow> nat option" where
  "first_index P [] = None"
| "first_index P (x # xs) = (if P x then Some 0 else map_option Suc (first_index P xs))"

text \<open>The body of the loop over \<open>target_members.items()\<close> (lines 345-362).\<close>

definition monthly_step ::
  "(tag \<times> member_entry) list \<Rightarrow> (tag \<times> monthly_entry) list \<times> int \<Rightarrow> tag \<times> member_entry
     \<Rightarrow> (tag \<times> monthly_entry) list \<times> int" where
  "monthly_step prev_members acc item =
     (case acc of (monthly_donations, total_monthly) \<Rightarrow>
      case item of (tag, data) \<Rightarrow>
        (let target_seasonal = seasonal data;
             monthly = (case map_of prev_members tag of
                          Some prev_data \<Rightarrow> max 0 (target_seasonal - seasonal prev_data)
                        | None \<Rightarrow> target_seasonal)
         in (AList.update tag
               \<lparr>name = name data, seasonal = target_seasonal, lifetime = lifetime data,
                monthly = monthly\<rparr> monthly_donations,
             total_monthly + monthly)))"

definition first_snapshot_report :: "string \<Rightarrow> monthly_report" where
  "first_snapshot_report month_key =
     \<lparr>r_month = month_key, r_members = [], r_total_monthly = 0,
      r_note = Some ''First snapshot - no previous data to compare''\<rparr>"

text \<open>
  \<open>calculate_monthly_donations(clan_tag, month_key)\<close>; the first argument is what
  \<open>load_donation_snapshots()\<close> returned and the second what \<open>get_current_month_key()\<close>
  would return. \<open>sort_key\<close> is a stable insertion sort, as \<open>sorted\<close> is stable.
\<close>

definition calculate_monthly_donations ::
  "(clan_tag \<rightharpoonup> snapshot list) \<Rightarrow> string \<Rightarrow> clan_tag \<Rightarrow> string option \<Rightarrow> monthly_report option" where
  "calculate_monthly_donations snapshots current_month clan month_key_arg =
     (let month_key = (case month_key_arg of None \<Rightarrow> current_month | Some m \<Rightarrow> m);
          clan_snapshots = (case snapshots clan of None \<Rightarrow> [] | Some l \<Rightarrow> l)
      in if clan_snapshots = [] then None
         else
           (case List.find (\<lambda>s. date s = month_key) clan_snapshots of
              None \<Rightarrow> None
            | Some target_snapshot \<Rightarrow>
                (let sorted_snapshots = sort_key date clan_snapshots
                 in case first_index (\<lambda>s. date s = month_key) sorted_snapshots of
                      None \<Rightarrow> Some (first_snapshot_report month_key)
                    | Some 0 \<Rightarrow> Some (first_snapshot_report month_key)
                    | Some (Suc i) \<Rightarrow>
                        (let prev_snapshot = sorted_snapshots ! i;
                             target_members = members target_snapshot;
                             prev_members = members prev_snapshot
                         in case foldl (monthly_step prev_members) ([], 0) target_members of
                              (monthly_donations, total_monthly) \<Rightarrow>
                                Some \<lparr>r_month = month_key, r_members = monthly_donations,
                                      r_total_monthly = total_monthly, r_note = None\<rparr>))))"

text \<open>The monthly figure of one member against the entries of the previous snapshot.\<close>

definition monthly_figure :: "(tag \<times> member_entry) list \<Rightarrow> tag \<Rightarrow> member_entry \<Rightarrow> int" where
  "monthly_figure prev_members tag data =
     (case map_of prev_members tag of
        Some prev_data \<Rightarrow> max 0 (seasonal data - seasonal prev_data)
      | None \<Rightarrow> seasonal data)"

definition mk_entry :: "string \<Rightarrow> int \<Rightarrow> member_entry" where
  "mk_entry n s =
     \<lparr>name = n, seasonal = s,
      lifetime = \<lparr>troops_donated = 0, spells_donated = 0, siege_donated = 0, total_donated = 0\<rparr>\<rparr>"

definition two_months :: "int \<Rightarrow> int \<Rightarrow> clan_tag \<rightharpoonup> snapshot list" where
  "two_months a b =
     [''#C'' \<mapsto>
        [\<lparr>date = ''2024-02'', timestamp = '''', members = [(''#P'', mk_entry ''p'' b)]\<rparr>,
         \<lparr>date = ''2024-01'', timestamp = '''', members = [(''#P'', mk_entry ''p'' a)]\<rparr>]]"

section \<open>TTL cache: \<open>APICache\<close> of cache.py\<close>

text \<open>
  \<open>APICache._cache\<close> maps a key to the pair of the stored value and the time of the store.
  A stored value is either JSON data or Python's \<open>None\<close>, hence \<open>'v option\<close>; \<open>get\<close>
  returns \<open>None\<close> for a miss as well. The reading of the clock (\<open>time.time()\<close>) is an
  argument of each operation, a real number of seconds. The per-key locks of the class
  guard blocks without a suspension point and carry no data; they are not part of the
  state.
\<close>

type_synonym 'v cache = "string \<rightharpoonup> ('v option \<times> real)"

definition cache_get :: "real \<Rightarrow> string \<Rightarrow> real \<Rightarrow> 'v cache \<Rightarrow> 'v option \<times> 'v cache" where
  "cache_get now key ttl cache =
     (case cache key of
        None \<Rightarrow> (None, cache)
      | Some (v, stored_at) \<Rightarrow>
          if now - stored_at < ttl then (v, cache)
          else (None, cache(key := None)))"

definition cache_set :: "real \<Rightarrow> string \<Rightarrow> 'v option \<Rightarrow> 'v cache \<Rightarrow> 'v cache" where
  "cache_set now key v cache = cache(key \<mapsto> (v, now))"

definition cache_invalidate :: "string \<Rightarrow> 'v cache \<Rightarrow> 'v cache" where
  "cache_invalidate key cache = cache(key := None)"

text \<open>
  A sequence of \<open>get\<close> calls on one key, each with its own clock reading and TTL; the
  results are collected and the cache is threaded through.
\<close>

fun cache_gets :: "(real \<times> real) list \<Rightarrow> string \<Rightarrow> 'v cache \<Rightarrow> 'v option list \<times> 'v cache" where
  "cache_gets [] key cache = ([], cache)"
| "cache_gets ((now, ttl) # reads) key cache =
     (case cache_get now key ttl cache of (r, cache1) \<Rightarrow>
        (case cache_gets reads key cache1 of (rs, cache2) \<Rightarrow> (r # rs, cache2)))"

section \<open>API gateway: \<open>COCAPI._make_request\<close> (coc_api.py) and \<open>coc_get\<close> (discordwelcomebot.py)\<close>

text \<open>
  The upstream service is the environment. \<open>respond n url key\<close> is the outcome of the
  \<open>n\<close>-th request the process sends (counted from 0), for the given URL and bearer key:
  an HTTP status with the parsed JSON body (\<open>None\<close> for a JSON \<open>null\<close>; the body is read
  only when the status is 200), or one of the two exceptions the code catches.
  \<open>probe_ip\<close> is the value of \<open>(await resp.text()).strip()\<close> when the IP service
  answers with status 200, that is the text body as the library function \<open>str.strip\<close>
  returns it, and \<open>None\<close> when the service answers otherwise or the request raises. The semaphore that bounds the
  number of simultaneous requests delays a request but does not change it, and is left
  out. This section models one call at
  a time: no other fetch for the key is in flight, so \<open>request_deduplicator.get_or_create\<close>
  creates the task, awaits it and removes its entry again; the interleaving of several
  callers is the subject of the next section.
\<close>

datatype 'v response = Http nat "'v option" | TimeoutError | ClientError

record 'v environment =
  respond :: "nat \<Rightarrow> string \<Rightarrow> string \<Rightarrow> 'v response"
  probe_ip :: "string option"
  http_session :: bool

record api_config =
  COC_API_KEYS :: "(string \<times> string) list"
  COC_IP_CACHE_TTL :: real
  PLAYER_CACHE_TTL :: real
  CLAN_CACHE_TTL :: real
  WAR_CACHE_TTL :: real

definition COC_API_BASE_URL :: string where
  "COC_API_BASE_URL = ''https://api.clashofclans.com/v1''"

text \<open>
  The module-level state: the cache, the selected key and the detected IP with their
  timestamps, and the log of the upstream requests sent so far (URL and key), which is how
  the model observes an upstream lookup.
\<close>

record 'v gateway_state =
  api_cache :: "'v cache"
  selected_coc_key :: "string option"
  selected_coc_key_ts :: real
  cached_ip :: "string option"
  cached_ip_ts :: real
  requests :: "(string \<times> string) list"

text \<open>Truthiness of an optional string: neither \<open>None\<close> nor empty.\<close>

definition truthy :: "string option \<Rightarrow> bool" where
  "truthy x = (case x of None \<Rightarrow> False | Some s \<Rightarrow> s \<noteq> [])"

fun starts_with :: "string \<Rightarrow> string \<Rightarrow> bool" where
  "starts_with s [] = True"
| "starts_with [] (p # ps) = False"
| "starts_with (c # cs) (p # ps) = (c = p \<and> starts_with cs ps)"

fun contains :: "string \<Rightarrow> string \<Rightarrow> bool" where
  "contains [] p = (p = [])"
| "contains (c # cs) p = (starts_with (c # cs) p \<or> contains cs p)"

definition ends_with :: "string \<Rightarrow> string \<Rightarrow> bool" where
  "ends_with s p = starts_with (rev s) (rev p)"

text \<open>One request: the log grows by one entry and the environment answers.\<close>

definition send_request ::
  "'v environment \<Rightarrow> string \<Rightarrow> string \<Rightarrow> 'v gateway_state \<Rightarrow> 'v response \<times> 'v gateway_state" where
  "send_request env url key s =
     (respond env (length (requests s)) url key, s\<lparr>requests := requests s @ [(url, key)]\<rparr>)"

subsection \<open>\<open>COCAPI._make_request\<close>\<close>

text \<open>
  The loop of \<open>_fetch\<close> over \<open>list(COC_API_KEYS.values())\<close> (lines 50-71): status 200
  stores and returns the body, status 404 stores \<open>None\<close> and returns \<open>None\<close>, anything else
  moves on to the next key. \<open>now\<close> is the clock reading of the store.
\<close>

fun fetch_keys ::
  "'v environment \<Rightarrow> string \<Rightarrow> string \<Rightarrow> real \<Rightarrow> string list \<Rightarrow> 'v gateway_state
     \<Rightarrow> 'v option \<times> 'v gateway_state" where
  "fetch_keys env url cache_key now [] s = (None, s)"
| "fetch_keys env url cache_key now (k # ks) s =
     (case send_request env url k s of (resp, s1) \<Rightarrow>
        (case resp of
           Http status data \<Rightarrow>
             if status = 200
             then (data, s1\<lparr>api_cache := cache_set now cache_key data (api_cache s1)\<rparr>)
             else if status = 404
             then (None, s1\<lparr>api_cache := cache_set now cache_key None (api_cache s1)\<rparr>)
             else fetch_keys env url cache_key now ks s1
         | TimeoutError \<Rightarrow> fetch_keys env url cache_key now ks s1
         | ClientError \<Rightarrow> fetch_keys env url cache_key now ks s1))"

text \<open>
  \<open>_make_request(path, cache_key, ttl)\<close>; \<open>now_get\<close> is the clock reading of the cache
  lookup and \<open>now_set\<close> that of the store inside \<open>_fetch\<close>.
\<close>

definition make_request ::
  "'v environment \<Rightarrow> api_config \<Rightarrow> string \<Rightarrow> string option \<Rightarrow> real \<Rightarrow> real \<Rightarrow> real
     \<Rightarrow> 'v gateway_state \<Rightarrow> 'v option \<times> 'v gateway_state" where
  "make_request env cfg path cache_key_arg ttl now_get now_set s =
     (if COC_API_KEYS cfg = [] then (None, s)
      else
        (let cache_key = (if truthy cache_key_arg then the cache_key_arg else path)
         in case cache_get now_get cache_key ttl (api_cache s) of (cached, cache1) \<Rightarrow>
              if cached \<noteq> None then (cached, s\<lparr>api_cache := cache1\<rparr>)
              else fetch_keys env (COC_API_BASE_URL @ path) cache_key now_set
                     (map snd (COC_API_KEYS cfg)) (s\<lparr>api_cache := cache1\<rparr>)))"

subsection \<open>\<open>coc_get\<close> with key selection and failover\<close>

definition get_egress_ip ::
  "'v environment \<Rightarrow> api_config \<Rightarrow> real \<Rightarrow> 'v gateway_state \<Rightarrow> string option \<times> 'v gateway_state" where
  "get_egress_ip env cfg now s =
     (if truthy (cached_ip s) \<and> now - cached_ip_ts s < COC_IP_CACHE_TTL cfg then (cached_ip s, s)
      else if \<not> http_session env then (None, s)
      else
        (case probe_ip env of
           Some ip \<Rightarrow> (Some ip, s\<lparr>cached_ip := Some ip, cached_ip_ts := now\<rparr>)
         | None \<Rightarrow> (None, s)))"

text \<open>
  \<open>select_coc_key()\<close>. The function reads the clock before and after taking
  \<open>_coc_key_lock\<close>, and \<open>get_egress_ip\<close> reads it once more; with no other task in
  between, all three readings are the one instant \<open>now\<close> and the second test of the
  selection repeats the first.
\<close>

definition select_coc_key ::
  "'v environment \<Rightarrow> api_config \<Rightarrow> real \<Rightarrow> 'v gateway_state \<Rightarrow> string option \<times> 'v gateway_state" where
  "select_coc_key env cfg now s =
     (if truthy (selected_coc_key s) \<and> now - selected_coc_key_ts s < COC_IP_CACHE_TTL cfg
      then (selected_coc_key s, s)
      else
        (case get_egress_ip env cfg now s of (ip, s1) \<Rightarrow>
           if truthy ip \<and> map_of (COC_API_KEYS cfg) (the ip) \<noteq> None
           then (map_of (COC_API_KEYS cfg) (the ip),
                 s1\<lparr>selected_coc_key := map_of (COC_API_KEYS cfg) (the ip), selected_coc_key_ts := now\<rparr>)
           else if map_of (COC_API_KEYS cfg) ''*'' \<noteq> None
           then (map_of (COC_API_KEYS cfg) ''*'',
                 s1\<lparr>selected_coc_key := map_of (COC_API_KEYS cfg) ''*'', selected_coc_key_ts := now\<rparr>)
           else
             (case map snd (COC_API_KEYS cfg) of
                [] \<Rightarrow> (None, s1)
              | k # _ \<Rightarrow> (Some k, s1\<lparr>selected_coc_key := Some k, selected_coc_key_ts := now\<rparr>))))"

text \<open>
  \<open>_try_key_and_fetch\<close> returns the status with the body, the status alone when it is not
  200, and \<open>(None, None)\<close> on the two exceptions.
\<close>

definition try_key_and_fetch ::
  "'v environment \<Rightarrow> string \<Rightarrow> string \<Rightarrow> 'v gateway_state
     \<Rightarrow> (nat option \<times> 'v option) \<times> 'v gateway_state" where
  "try_key_and_fetch env url key s =
     (case send_request env url key s of (resp, s1) \<Rightarrow>
        (case resp of
           Http status data \<Rightarrow> if status \<noteq> 200 then ((Some status, None), s1)
                                else ((Some status, data), s1)
         | TimeoutError \<Rightarrow> ((None, None), s1)
         | ClientError \<Rightarrow> ((None, None), s1)))"

text \<open>
  The failover loop (lines 321-331) over \<open>set(COC_API_KEYS.values())\<close>. The iteration
  order of a Python set is unspecified, so the loop takes the order as its list argument.
\<close>

fun try_other_keys ::
  "'v environment \<Rightarrow> string \<Rightarrow> string \<Rightarrow> real \<Rightarrow> string \<Rightarrow> string list \<Rightarrow> 'v gateway_state
     \<Rightarrow> 'v option \<times> 'v gateway_state" where
  "try_other_keys env url cache_key now key [] s = (None, s)"
| "try_other_keys env url cache_key now key (k # ks) s =
     (if k = key then try_other_keys env url cache_key now key ks s
      else
        (case try_key_and_fetch env url k s of ((status, data), s1) \<Rightarrow>
           if status = Some 200 \<and> data \<noteq> None
           then (data, s1\<lparr>selected_coc_key := Some k, selected_coc_key_ts := now,
                           api_cache := cache_set now cache_key data (api_cache s1)\<rparr>)
           else try_other_keys env url cache_key now key ks s1))"

text \<open>
  \<open>_fetch\<close> of \<open>coc_get\<close> (lines 305-331). \<open>now_select\<close> is the clock reading of
  \<open>select_coc_key\<close>, \<open>now_set\<close> that of the successful response; \<open>key_order\<close> is the
  iteration order of \<open>set(COC_API_KEYS.values())\<close>.
\<close>

definition coc_fetch ::
  "'v environment \<Rightarrow> api_config \<Rightarrow> string \<Rightarrow> string \<Rightarrow> string list \<Rightarrow> real \<Rightarrow> real
     \<Rightarrow> 'v gateway_state \<Rightarrow> 'v option \<times> 'v gateway_state" where
  "coc_fetch env cfg url cache_key key_order now_select now_set s =
     (case select_coc_key env cfg now_select s of (key, s1) \<Rightarrow>
        if \<not> truthy key then (None, s1)
        else
          (case try_key_and_fetch env url (the key) s1 of ((status, data), s2) \<Rightarrow>
             if status = Some 200 \<and> data \<noteq> None
             then (data, s2\<lparr>api_cache := cache_set now_set cache_key data (api_cache s2)\<rparr>)
             else try_other_keys env url cache_key now_set (the key) key_order s2))"

definition ttl_for :: "api_config \<Rightarrow> string \<Rightarrow> real" where
  "ttl_for cfg path_norm =
     (if contains path_norm ''/players/'' then PLAYER_CACHE_TTL cfg
      else if ends_with path_norm ''/currentwar'' \<or> contains path_norm ''/currentwar''
      then WAR_CACHE_TTL cfg
      else CLAN_CACHE_TTL cfg)"

definition coc_get ::
  "'v environment \<Rightarrow> api_config \<Rightarrow> string \<Rightarrow> string list \<Rightarrow> real \<Rightarrow> real \<Rightarrow> real
     \<Rightarrow> 'v gateway_state \<Rightarrow> 'v option \<times> 'v gateway_state" where
  "coc_get env cfg path key_order now_get now_select now_set s =
     (if \<not> http_session env then (None, s)
      else
        (let path_norm = (if starts_with path ''/'' then path else ''/'' @ path);
             cache_key = ''coc:'' @ path_norm;
             ttl = ttl_for cfg path_norm
         in case cache_get now_get cache_key ttl (api_cache s) of (cached, cache1) \<Rightarrow>
              if cached \<noteq> None then (cached, s\<lparr>api_cache := cache1\<rparr>)
              else coc_fetch env cfg (COC_API_BASE_URL @ path_norm) cache_key key_order
                     now_select now_set (s\<lparr>api_cache := cache1\<rparr>)))"



text \<open>Concrete environments and states for the scenarios.\<close>

definition always_404 :: "string environment" where
  "always_404 = \<lparr>respond = (\<lambda>n url key. Http 404 None), probe_ip = None, http_session = True\<rparr>"

definition one_key :: api_config where
  "one_key = \<lparr>COC_API_KEYS = [(''*'', ''KEY_A'')], COC_IP_CACHE_TTL = 300,
              PLAYER_CACHE_TTL = 300, CLAN_CACHE_TTL = 60, WAR_CACHE_TTL = 30\<rparr>"

definition gateway_init :: "string gateway_state" where
  "gateway_init = \<lparr>api_cache = Map.empty, selected_coc_key = None, selected_coc_key_ts = 0,
                   cached_ip = None, cached_ip_ts = 0, requests = []\<rparr>"

definition first_lookup :: "string option \<times> string gateway_state" where
  "first_lookup =
     make_request always_404 one_key ''/players/%23P'' (Some ''player:#P'') 300 10 11 gateway_init"

definition second_lookup :: "string option \<times> string gateway_state" where
  "second_lookup =
     make_request always_404 one_key ''/players/%23P'' (Some ''player:#P'') 300 20 21 (snd first_lookup)"

definition first_coc_get :: "string option \<times> string gateway_state" where
  "first_coc_get = coc_get always_404 one_key ''/players/%23P'' [''KEY_A''] 10 10 11 gateway_init"

definition second_coc_get :: "string option \<times> string gateway_state" where
  "second_coc_get = coc_get always_404 one_key ''/players/%23P'' [''KEY_A''] 20 20 21 (snd first_coc_get)"







section \<open>Request coalescing: \<open>RequestDeduplicator.get_or_create\<close> under interleaving\<close>

text \<open>
  The process is one asyncio event loop: tasks interleave only at suspension points, so
  the code between two suspension points is one atomic step. The locks of \<open>APICache\<close> and
  of \<open>RequestDeduplicator\<close> guard blocks without any \<open>await\<close>; they are therefore free
  whenever a task is scheduled, taking them never suspends, and the steps of a caller of
  \<open>_make_request\<close> are:
  \<^item> \<open>call\<close>: the cache lookup (lines 34-39 of coc_api.py) and, on a miss, the first
    locked block of \<open>get_or_create\<close> (lines 83-90 of cache.py), up to \<open>await future\<close>.
    Awaiting a future that is not done suspends the caller. Awaiting a future that is
    already done does not suspend: the caller obtains the outcome, runs the \<open>finally\<close>
    block and returns, all within this step. The guard before the lookup (no key
    configured: return \<open>None\<close> at once) is not part of the step;
  \<^item> \<open>resume\<close>: for a suspended caller, from the wake-up at \<open>await future\<close> through
    the \<open>finally\<close> block (lines 93-99) to the return.
  The task created for the factory ends in one step \<open>settle\<close>: the last store of
  \<open>_fetch\<close>, if any, and its return or exception. A future is identified by the number
  of tasks created before it; \<open>created\<close> lists the key of every task created so far, so
  its length counts the executions of the factory. Callers are identified by numbers.
  The administrative \<open>clear\<close> commands are not part of the model.
\<close>

datatype 'v outcome = Returned "'v option" | Raised string

text \<open>
  How \<open>_fetch\<close> ends: it stored a value and returns it (status 200 with its body, or
  status 404 with \<open>None\<close>), it ran out of keys and returns \<open>None\<close> without a store, or
  an exception it does not catch propagates.
\<close>

datatype 'v ending = Stored "'v option" | Exhausted | Crashed string

record 'v coalescer_state =
  co_cache :: "'v cache"
  pending :: "string \<rightharpoonup> nat"
  created :: "string list"
  settled :: "nat \<rightharpoonup> 'v outcome"
  awaiting :: "nat \<rightharpoonup> string \<times> nat"
  returned :: "nat \<rightharpoonup> 'v outcome"

text \<open>
  The \<open>finally\<close> block: \<open>if key in self._pending and self._pending[key] == future: del
  self._pending[key]\<close>. Futures do not define \<open>__eq__\<close>, so \<open>==\<close> is identity.
\<close>

definition cleanup :: "string \<Rightarrow> nat \<Rightarrow> (string \<rightharpoonup> nat) \<Rightarrow> (string \<rightharpoonup> nat)" where
  "cleanup key future p = (if p key = Some future then p(key := None) else p)"

text \<open>
  \<open>get_or_create\<close> from its first locked block on. A pending future that is not done is
  joined and the caller suspends; a pending future that is done gives its outcome at
  once, the cleanup runs and the caller returns; with no pending entry a task is created
  and registered, and the caller suspends (the new task has not run yet).
\<close>

definition register :: "nat \<Rightarrow> string \<Rightarrow> 'v coalescer_state \<Rightarrow> 'v coalescer_state" where
  "register caller key s =
     (case pending s key of
        Some future \<Rightarrow>
          (case settled s future of
             None \<Rightarrow> s\<lparr>awaiting := (awaiting s)(caller \<mapsto> (key, future))\<rparr>
           | Some out \<Rightarrow>
               s\<lparr>returned := (returned s)(caller \<mapsto> out),
                 pending := cleanup key future (pending s)\<rparr>)
      | None \<Rightarrow>
          (let future = length (created s)
           in s\<lparr>created := created s @ [key],
                pending := (pending s)(key \<mapsto> future),
                awaiting := (awaiting s)(caller \<mapsto> (key, future))\<rparr>))"

text \<open>A suspended caller whose future is done is woken.\<close>

definition resume :: "nat \<Rightarrow> 'v coalescer_state \<Rightarrow> 'v coalescer_state" where
  "resume caller s =
     (case awaiting s caller of
        None \<Rightarrow> s
      | Some (key, future) \<Rightarrow>
          (case settled s future of
             None \<Rightarrow> s
           | Some out \<Rightarrow>
               s\<lparr>returned := (returned s)(caller \<mapsto> out),
                 awaiting := (awaiting s)(caller := None),
                 pending := cleanup key future (pending s)\<rparr>))"

text \<open>
  \<open>_make_request\<close> up to its suspension or return: a cached value that is not \<open>None\<close>
  is returned at once, otherwise \<open>get_or_create\<close> is entered.
\<close>

definition call :: "nat \<Rightarrow> string \<Rightarrow> real \<Rightarrow> real \<Rightarrow> 'v coalescer_state \<Rightarrow> 'v coalescer_state" where
  "call caller key ttl now s =
     (case cache_get now key ttl (co_cache s) of (cached, cache1) \<Rightarrow>
        if cached \<noteq> None
        then s\<lparr>co_cache := cache1, returned := (returned s)(caller \<mapsto> Returned cached)\<rparr>
        else register caller key (s\<lparr>co_cache := cache1\<rparr>))"

definition result_of :: "'v ending \<Rightarrow> 'v outcome" where
  "result_of e = (case e of Stored v \<Rightarrow> Returned v | Exhausted \<Rightarrow> Returned None | Crashed x \<Rightarrow> Raised x)"

definition settle :: "nat \<Rightarrow> 'v ending \<Rightarrow> real \<Rightarrow> 'v coalescer_state \<Rightarrow> 'v coalescer_state" where
  "settle future e now s =
     (if future < length (created s) \<and> settled s future = None
      then (case e of
              Stored v \<Rightarrow>
                s\<lparr>co_cache := cache_set now (created s ! future) v (co_cache s),
                  settled := (settled s)(future \<mapsto> result_of e)\<rparr>
            | _ \<Rightarrow> s\<lparr>settled := (settled s)(future \<mapsto> result_of e)\<rparr>)
      else s)"

text \<open>
  A schedule is a list of steps chosen by the event loop and the environment; a step
  that is not enabled (waking a caller whose future is not done, ending a task twice)
  leaves the state as it is.
\<close>

datatype 'v sched_event =
    Call nat string real real
  | Settle nat "'v ending" real
  | Resume nat

fun step :: "'v sched_event \<Rightarrow> 'v coalescer_state \<Rightarrow> 'v coalescer_state" where
  "step (Call caller key ttl now) s = call caller key ttl now s"
| "step (Settle future e now) s = settle future e now s"
| "step (Resume caller) s = resume caller s"

definition run :: "'v sched_event list \<Rightarrow> 'v coalescer_state \<Rightarrow> 'v coalescer_state" where
  "run es s = fold step es s"

definition coalescer_init :: "string coalescer_state" where
  "coalescer_init = \<lparr>co_cache = Map.empty, pending = Map.empty, created = [],
                     settled = Map.empty, awaiting = Map.empty, returned = Map.empty\<rparr>"

text \<open>
  A schedule in which a second fetch for the key starts while a caller of the first is
  still to be woken: caller 1 starts the fetch, caller 2 joins it, the fetch fails, caller
  1 is woken and cleans up, caller 3 starts a new fetch.
\<close>

definition overlap_schedule :: "string sched_event list" where
  "overlap_schedule =
     [Call 1 ''k'' 60 0, Call 2 ''k'' 60 0, Settle 0 Exhausted 1, Resume 1, Call 3 ''k'' 60 2]"

text \<open>The calls of a list of callers, each with its TTL and clock reading, for one key.\<close>

definition calls :: "string \<Rightarrow> (nat \<times> real \<times> real) list \<Rightarrow> 'v sched_event list" where
  "calls key cs = map (\<lambda>(caller, ttl, now). Call caller key ttl now) cs"

text \<open>
  The phases of one coalesced fetch of \<open>key\<close> by the future numbered
  \<open>length created0\<close>, used to state the
  lemmas about schedules: the fetch is in flight and the callers \<open>cs\<close> await it; the task
  has ended and the callers are being woken. \<open>A\<close> is the set of all callers of the schedule and \<open>valueless\<close>
  says that the cache has no value other than \<open>None\<close> for the key.
\<close>

definition valueless :: "('v option \<times> real) option \<Rightarrow> bool" where
  "valueless x = (case x of None \<Rightarrow> True | Some (v, stored_at) \<Rightarrow> v = None)"

definition in_flight ::
  "string \<Rightarrow> string list \<Rightarrow> nat set \<Rightarrow> nat set \<Rightarrow> 'v coalescer_state \<Rightarrow> bool" where
  "in_flight key created0 A cs s \<longleftrightarrow>
     created s = created0 @ [key] \<and> pending s key = Some (length created0) \<and>
     settled s (length created0) = None \<and> valueless (co_cache s key) \<and>
     (\<forall>c \<in> cs. awaiting s c = Some (key, length created0)) \<and>
     (\<forall>c \<in> A - cs. awaiting s c = None)"

definition waking ::
  "string \<Rightarrow> string list \<Rightarrow> 'v ending \<Rightarrow> nat set \<Rightarrow> nat \<Rightarrow> nat set \<Rightarrow> 'v coalescer_state \<Rightarrow> bool" where
  "waking key created0 e A first woken s \<longleftrightarrow>
     created s = created0 @ [key] \<and>
     settled s (length created0) = Some (result_of e) \<and>
     (pending s key = None \<or>
      (pending s key = Some (length created0) \<and> awaiting s first = Some (key, length created0))) \<and>
     (\<forall>c \<in> A. awaiting s c = Some (key, length created0) \<or>
              (awaiting s c = None \<and> returned s c = Some (result_of e))) \<and>
     (\<forall>c \<in> woken. awaiting s c = None \<and> returned s c = Some (result_of e))"

definition burst_schedule :: "string ending \<Rightarrow> string sched_event list" where
  "burst_schedule e =
     calls ''k'' [(1, 60, 0), (2, 60, 0), (3, 60, 1)] @ [Settle 0 e 2] @ map Resume [2, 1, 3]"

text \<open>
  A schedule in which callers arrive after the task has ended: caller 1 starts the fetch,
  the fetch fails, and callers 2 and 3 call before caller 1 is woken.
\<close>

definition late_schedule :: "string sched_event list" where
  "late_schedule = [Call 1 ''k'' 60 0, Settle 0 Exhausted 1, Call 2 ''k'' 60 2, Call 3 ''k'' 60 2]"

section \<open>Properties of the membership tracker\<close>

subsection \<open>The snapshot \<open>current_tags\<close>\<close>

lemma current_tags_of_Nil: "current_tags_of [] = []"
  by (simp add: current_tags_of_def)

lemma keys_add_member:
  "fst ` set (add_member d m) =
     fst ` set d \<union> (case m_tag m of None \<Rightarrow> {} | Some t \<Rightarrow> if t = [] then {} else {t})"
  by (auto simp: add_member_def AList.dom_update split: option.splits)

lemma keys_foldl_add_member:
  "fst ` set (foldl add_member d ms) =
     fst ` set d \<union> {t. t \<noteq> [] \<and> (\<exists>m \<in> set ms. m_tag m = Some t)}"
proof (induction ms arbitrary: d)
  case Nil
  then show ?case by simp
next
  case (Cons m ms)
  show ?case
    unfolding foldl_Cons Cons.IH keys_add_member
    by (auto split: option.splits if_splits)
qed

lemma set_current_tags:
  "set (map fst (current_tags_of ms)) = {t. t \<noteq> [] \<and> (\<exists>m \<in> set ms. m_tag m = Some t)}"
  using keys_foldl_add_member [of "[]" ms] by (simp add: current_tags_of_def)

lemma distinct_add_member: "distinct (map fst d) \<Longrightarrow> distinct (map fst (add_member d m))"
  by (simp add: add_member_def AList.distinct_update split: option.splits)

lemma distinct_foldl_add_member:
  "distinct (map fst d) \<Longrightarrow> distinct (map fst (foldl add_member d ms))"
  by (induction ms arbitrary: d) (simp_all add: distinct_add_member)

lemma distinct_current_tags: "distinct (map fst (current_tags_of ms))"
  by (simp add: current_tags_of_def distinct_foldl_add_member)

subsection \<open>What each state update leaves alone\<close>

lemma known_tags_frame [simp]:
  "known_tags (save_strict_cache c s) d = known_tags s d"
  "known_tags (setdefault_missing c s) d = known_tags s d"
  "known_tags (s\<lparr>missing_counts := mc\<rparr>) d = known_tags s d"
  by (simp_all add: known_tags_def save_strict_cache_def setdefault_missing_def split: option.splits)

lemma missing_of_frame [simp]:
  "missing_of (save_strict_cache c s) d = missing_of s d"
  "missing_of (setdefault_missing c s) d = missing_of s d"
  "missing_of (s\<lparr>missing_counts := mc(c \<mapsto> m)\<rparr>) c = m"
  by (simp_all add: missing_of_def save_strict_cache_def setdefault_missing_def split: option.splits)

lemma members_file_frame [simp]:
  "members_file (setdefault_missing c s) = members_file s"
  "members_file (save_strict_cache c s) c = Some (known_tags s c)"
  by (simp_all add: save_strict_cache_def setdefault_missing_def split: option.splits)

lemma initialized_frame [simp]:
  "initialized_baseline (setdefault_missing c s) = initialized_baseline s"
  "initialized_baseline (save_strict_cache c s) = initialized_baseline s"
  by (simp_all add: save_strict_cache_def setdefault_missing_def split: option.splits)

subsection \<open>The join loop\<close>

lemma fst_join_loop_Cons:
  "fst (join_loop c (t # ts) s) = fst (join_loop c ts (fst (join_one c t s)))"
  by (simp split: prod.splits)

lemma snd_join_loop_Cons:
  "snd (join_loop c (t # ts) s) = snd (join_one c t s) @ snd (join_loop c ts (fst (join_one c t s)))"
  by (simp split: prod.splits)

lemma join_one_known:
  "known_tags (fst (join_one c t s)) c = set_add t (known_tags s c)"
  by (simp add: join_one_def Let_def known_tags_def setdefault_missing_def split: option.splits)

lemma join_one_missing:
  "missing_of (fst (join_one c t s)) c = (missing_of s c)(t := None)"
  by (simp add: join_one_def Let_def missing_of_def setdefault_missing_def split: option.splits)

lemma join_one_file:
  "members_file (fst (join_one c t s)) = members_file s"
  by (simp add: join_one_def Let_def setdefault_missing_def split: option.splits)

lemma join_one_init:
  "initialized_baseline (fst (join_one c t s)) = initialized_baseline s"
  by (simp add: join_one_def Let_def setdefault_missing_def split: option.splits)

lemma join_loop_events: "snd (join_loop c ts s) = map Join ts"
  by (induction ts arbitrary: s)
     (simp_all add: snd_join_loop_Cons join_one_def Let_def del: join_loop.simps(2))

lemma join_loop_known_set:
  "set (known_tags (fst (join_loop c ts s)) c) = set (known_tags s c) \<union> set ts"
  by (induction ts arbitrary: s)
     (auto simp: fst_join_loop_Cons join_one_known set_add_def simp del: join_loop.simps(2))

lemma join_loop_known_distinct:
  "distinct (known_tags s c) \<Longrightarrow> distinct (known_tags (fst (join_loop c ts s)) c)"
  by (induction ts arbitrary: s)
     (auto simp: fst_join_loop_Cons join_one_known set_add_def simp del: join_loop.simps(2))

lemma join_loop_missing:
  "missing_of (fst (join_loop c ts s)) c u = (if u \<in> set ts then None else missing_of s c u)"
  by (induction ts arbitrary: s)
     (auto simp: fst_join_loop_Cons join_one_missing simp del: join_loop.simps(2))

lemma join_loop_init: "initialized_baseline (fst (join_loop c ts s)) = initialized_baseline s"
  by (induction ts arbitrary: s)
     (simp_all add: fst_join_loop_Cons join_one_init del: join_loop.simps(2))

subsection \<open>The leave loop\<close>

lemma fst_leave_loop_Cons:
  "fst (leave_loop thr c (t # ts) s) = fst (leave_loop thr c ts (fst (leave_one thr c t s)))"
  by (simp split: prod.splits)

lemma snd_leave_loop_Cons:
  "snd (leave_loop thr c (t # ts) s) =
     snd (leave_one thr c t s) @ snd (leave_loop thr c ts (fst (leave_one thr c t s)))"
  by (simp split: prod.splits)

lemma leave_one_events:
  "snd (leave_one thr c t s) = (if thr \<le> miss_count s c t + 1 then [Leave t] else [])"
  by (simp add: leave_one_def Let_def)

lemma leave_one_missing:
  "missing_of (fst (leave_one thr c t s)) c =
     (missing_of s c)(t := (if miss_count s c t + 1 < thr then Some (miss_count s c t + 1) else None))"
  by (auto simp: leave_one_def Let_def missing_of_def save_strict_cache_def)

lemma leave_one_miss_count_other:
  "u \<noteq> t \<Longrightarrow> miss_count (fst (leave_one thr c t s)) c u = miss_count s c u"
  by (simp add: miss_count_def leave_one_missing)

lemma leave_one_miss_count_mem:
  "u \<in> set ts \<Longrightarrow> t \<notin> set ts \<Longrightarrow>
   miss_count (fst (leave_one thr c t s)) c u = miss_count s c u"
  by (rule leave_one_miss_count_other) auto

lemma set_remove_absent: "t \<notin> set ks \<Longrightarrow> set_remove t ks = ks"
  by (induction ks) (auto simp: set_remove_def)

lemma leave_one_known:
  "known_tags (fst (leave_one thr c t s)) c =
     (if thr \<le> miss_count s c t + 1 then set_remove t (known_tags s c) else known_tags s c)"
  by (auto simp: leave_one_def Let_def known_tags_def save_strict_cache_def set_remove_absent)

lemma leave_one_init:
  "initialized_baseline (fst (leave_one thr c t s)) = initialized_baseline s"
  by (simp add: leave_one_def Let_def)

lemma leave_one_saved:
  "saved s c \<Longrightarrow> saved (fst (leave_one thr c t s)) c"
  by (auto simp: leave_one_def Let_def saved_def known_tags_def save_strict_cache_def)

lemma leave_one_saved_confirmed:
  "thr \<le> miss_count s c t + 1 \<Longrightarrow> t \<in> set (known_tags s c) \<Longrightarrow>
   saved (fst (leave_one thr c t s)) c"
  by (auto simp: leave_one_def Let_def saved_def known_tags_def save_strict_cache_def)

lemma leave_loop_events:
  "distinct ts \<Longrightarrow>
   snd (leave_loop thr c ts s) = map Leave (filter (\<lambda>t. thr \<le> miss_count s c t + 1) ts)"
proof (induction ts arbitrary: s)
  case Nil
  then show ?case by simp
next
  case (Cons t ts)
  from Cons.prems have d: "distinct ts" and nt: "t \<notin> set ts" by simp_all
  have "filter (\<lambda>u. thr \<le> miss_count (fst (leave_one thr c t s)) c u + 1) ts
        = filter (\<lambda>u. thr \<le> miss_count s c u + 1) ts"
    using nt by (intro filter_cong refl) (simp add: leave_one_miss_count_mem)
  then show ?case
    by (simp add: snd_leave_loop_Cons Cons.IH [OF d] leave_one_events del: leave_loop.simps)
qed

lemma leave_loop_missing:
  "distinct ts \<Longrightarrow>
   missing_of (fst (leave_loop thr c ts s)) c u =
     (if u \<in> set ts
      then (if miss_count s c u + 1 < thr then Some (miss_count s c u + 1) else None)
      else missing_of s c u)"
proof (induction ts arbitrary: s)
  case Nil
  then show ?case by simp
next
  case (Cons t ts)
  from Cons.prems have d: "distinct ts" and nt: "t \<notin> set ts" by simp_all
  show ?case
    using nt
    by (auto simp: fst_leave_loop_Cons Cons.IH [OF d] leave_one_miss_count_mem leave_one_missing
        simp del: leave_loop.simps)
qed

lemma leave_loop_known:
  "distinct ts \<Longrightarrow>
   known_tags (fst (leave_loop thr c ts s)) c =
     filter (\<lambda>u. \<not> (u \<in> set ts \<and> thr \<le> miss_count s c u + 1)) (known_tags s c)"
proof (induction ts arbitrary: s)
  case Nil
  then show ?case by simp
next
  case (Cons t ts)
  from Cons.prems have d: "distinct ts" and nt: "t \<notin> set ts" by simp_all
  show ?case
    using nt
    by (auto simp: fst_leave_loop_Cons Cons.IH [OF d] leave_one_known set_remove_def
        leave_one_miss_count_mem simp del: leave_loop.simps intro!: filter_cong)
qed

lemma leave_loop_init:
  "initialized_baseline (fst (leave_loop thr c ts s)) = initialized_baseline s"
  by (induction ts arbitrary: s)
     (simp_all add: fst_leave_loop_Cons leave_one_init del: leave_loop.simps(2))

lemma leave_loop_saved:
  "saved s c \<Longrightarrow> saved (fst (leave_loop thr c ts s)) c"
  by (induction ts arbitrary: s)
     (simp_all add: fst_leave_loop_Cons leave_one_saved del: leave_loop.simps(2))

lemma leave_loop_saved_confirmed:
  "distinct ts \<Longrightarrow> set ts \<subseteq> set (known_tags s c) \<Longrightarrow>
   \<exists>t \<in> set ts. thr \<le> miss_count s c t + 1 \<Longrightarrow>
   saved (fst (leave_loop thr c ts s)) c"
proof (induction ts arbitrary: s)
  case Nil
  then show ?case by simp
next
  case (Cons t ts)
  from Cons.prems have d: "distinct ts" and nt: "t \<notin> set ts" by simp_all
  show ?case
  proof (cases "thr \<le> miss_count s c t + 1")
    case True
    then have "saved (fst (leave_one thr c t s)) c"
      using Cons.prems(2) by (simp add: leave_one_saved_confirmed)
    then show ?thesis
      by (simp add: fst_leave_loop_Cons leave_loop_saved del: leave_loop.simps)
  next
    case False
    then obtain u where u: "u \<in> set ts" "thr \<le> miss_count s c u + 1"
      using Cons.prems(3) by auto
    have sub: "set ts \<subseteq> set (known_tags (fst (leave_one thr c t s)) c)"
      using Cons.prems(2) False by (simp add: leave_one_known)
    have "\<exists>v \<in> set ts. thr \<le> miss_count (fst (leave_one thr c t s)) c v + 1"
      using u nt by (intro bexI [of _ u]) (auto simp: leave_one_miss_count_mem)
    then show ?thesis
      using Cons.IH [OF d sub] by (simp add: fst_leave_loop_Cons del: leave_loop.simps)
  qed
qed

subsection \<open>One tick on the diff path\<close>

lemma fold_pop_apply:
  "fold (\<lambda>t m. m(t := None)) ts m u = (if u \<in> set ts then None else m u)"
  by (induction ts arbitrary: m) auto

lemma tick_unfold:
  assumes "known_tags s c \<noteq> []" and "\<not> (ms = [] \<and> SKIP_EMPTY_MEMBER_LIST cfg)"
  shows "track_clan_tick cfg c (Some ms) s =
           (fst (leave_loop (LEAVE_DEBOUNCE_COUNT cfg) c (candidate_leaves c ms s) (before_leaves c ms s)),
            map Join (filter (\<lambda>t. t \<notin> set (known_tags s c)) (map fst (current_tags_of ms)))
            @ snd (leave_loop (LEAVE_DEBOUNCE_COUNT cfg) c (candidate_leaves c ms s) (before_leaves c ms s)))"
proof -
  define joins where "joins = filter (\<lambda>t. t \<notin> set (known_tags s c)) (map fst (current_tags_of ms))"
  obtain s1 evj where jl: "join_loop c joins s = (s1, evj)"
    by (cases "join_loop c joins s")
  have evj: "evj = map Join joins"
    using join_loop_events [of c joins s] jl by simp
  define s4 where "s4 = before_leaves c ms s"
  have s4: "s4 = (let s2 = (if joins \<noteq> [] then save_strict_cache c s1 else s1);
                      s3 = setdefault_missing c s2
                  in s3\<lparr>missing_counts :=
                          (missing_counts s3)(c \<mapsto>
                             fold (\<lambda>t m. m(t := None)) (map fst (current_tags_of ms)) (missing_of s3 c))\<rparr>)"
    using jl by (auto simp add: s4_def before_leaves_def joins_def [symmetric] Let_def)
  define cands where "cands = candidate_leaves c ms s"
  have cands: "cands = filter (\<lambda>t. t \<notin> set (map fst (current_tags_of ms))) (known_tags s4 c)"
    by (simp add: cands_def candidate_leaves_def s4_def)
  obtain s5 evl where ll: "leave_loop (LEAVE_DEBOUNCE_COUNT cfg) c cands s4 = (s5, evl)"
    by (cases "leave_loop (LEAVE_DEBOUNCE_COUNT cfg) c cands s4")
  have guard: "(ms = [] \<and> SKIP_EMPTY_MEMBER_LIST cfg) = False"
    using assms(2) by simp
  have "track_clan_tick cfg c (Some ms) s = (s5, evj @ evl)"
    using assms(1) jl ll [unfolded cands s4]
    by (simp add: track_clan_tick_def joins_def [symmetric] Let_def guard)
  then show ?thesis
    using ll by (simp add: evj joins_def cands_def s4_def)
qed

lemma before_leaves_known_set:
  "set (known_tags (before_leaves c ms s) c) = set (known_tags s c) \<union> set (map fst (current_tags_of ms))"
  by (auto simp: before_leaves_def Let_def join_loop_known_set filter_empty_conv)

lemma before_leaves_known_distinct:
  "distinct (known_tags s c) \<Longrightarrow> distinct (known_tags (before_leaves c ms s) c)"
  by (simp add: before_leaves_def Let_def join_loop_known_distinct)

lemma before_leaves_missing:
  "missing_of (before_leaves c ms s) c u =
     (if u \<in> set (map fst (current_tags_of ms)) then None else missing_of s c u)"
  by (auto simp: before_leaves_def Let_def fold_pop_apply join_loop_missing)

lemma before_leaves_miss_count:
  "u \<notin> set (map fst (current_tags_of ms)) \<Longrightarrow>
   miss_count (before_leaves c ms s) c u = miss_count s c u"
  by (simp add: miss_count_def before_leaves_missing)

lemma before_leaves_init:
  "initialized_baseline (before_leaves c ms s) = initialized_baseline s"
  by (simp add: before_leaves_def Let_def join_loop_init)

lemma candidate_leaves_set:
  "set (candidate_leaves c ms s) = set (known_tags s c) - set (map fst (current_tags_of ms))"
  by (auto simp: candidate_leaves_def before_leaves_known_set)

lemma candidate_leaves_distinct:
  "distinct (known_tags s c) \<Longrightarrow> distinct (candidate_leaves c ms s)"
  by (simp add: candidate_leaves_def before_leaves_known_distinct)

lemma tick_events:
  assumes "known_tags s c \<noteq> []" and "\<not> (ms = [] \<and> SKIP_EMPTY_MEMBER_LIST cfg)"
    and "distinct (known_tags s c)"
  shows "snd (track_clan_tick cfg c (Some ms) s) =
     map Join (filter (\<lambda>t. t \<notin> set (known_tags s c)) (map fst (current_tags_of ms))) @
     map Leave (filter (\<lambda>t. LEAVE_DEBOUNCE_COUNT cfg \<le> miss_count s c t + 1) (candidate_leaves c ms s))"
proof -
  have "filter (\<lambda>t. LEAVE_DEBOUNCE_COUNT cfg \<le> miss_count (before_leaves c ms s) c t + 1) (candidate_leaves c ms s)
      = filter (\<lambda>t. LEAVE_DEBOUNCE_COUNT cfg \<le> miss_count s c t + 1) (candidate_leaves c ms s)"
    by (intro filter_cong refl) (simp add: candidate_leaves_set before_leaves_miss_count)
  then show ?thesis
    by (simp add: tick_unfold [OF assms(1,2)] leave_loop_events candidate_leaves_distinct assms(3))
qed

lemma tick_missing:
  assumes "known_tags s c \<noteq> []" and "\<not> (ms = [] \<and> SKIP_EMPTY_MEMBER_LIST cfg)"
    and "distinct (known_tags s c)"
  shows "missing_of (fst (track_clan_tick cfg c (Some ms) s)) c u =
     (if u \<in> set (map fst (current_tags_of ms)) then None
      else if u \<in> set (known_tags s c)
           then (if miss_count s c u + 1 < LEAVE_DEBOUNCE_COUNT cfg then Some (miss_count s c u + 1) else None)
           else missing_of s c u)"
  by (simp add: tick_unfold [OF assms(1,2)] leave_loop_missing candidate_leaves_distinct assms(3)
      candidate_leaves_set before_leaves_miss_count before_leaves_missing)

lemma tick_known:
  assumes "known_tags s c \<noteq> []" and "\<not> (ms = [] \<and> SKIP_EMPTY_MEMBER_LIST cfg)"
    and "distinct (known_tags s c)"
  shows "set (known_tags (fst (track_clan_tick cfg c (Some ms) s)) c) =
     (set (known_tags s c) \<union> set (map fst (current_tags_of ms))) -
     {t \<in> set (known_tags s c) - set (map fst (current_tags_of ms)).
        LEAVE_DEBOUNCE_COUNT cfg \<le> miss_count s c t + 1}"
  by (auto simp: tick_unfold [OF assms(1,2)] leave_loop_known candidate_leaves_distinct assms(3)
      candidate_leaves_set before_leaves_miss_count before_leaves_known_set)

lemma tick_saved:
  assumes "known_tags s c \<noteq> []" and "\<not> (ms = [] \<and> SKIP_EMPTY_MEMBER_LIST cfg)"
    and "distinct (known_tags s c)"
    and "t \<in> set (known_tags s c)" "t \<notin> set (map fst (current_tags_of ms))"
    and "LEAVE_DEBOUNCE_COUNT cfg \<le> miss_count s c t + 1"
  shows "members_file (fst (track_clan_tick cfg c (Some ms) s)) c =
           Some (known_tags (fst (track_clan_tick cfg c (Some ms) s)) c)"
proof -
  have "t \<in> set (candidate_leaves c ms s)"
    using assms(4,5) by (simp add: candidate_leaves_set)
  moreover have "LEAVE_DEBOUNCE_COUNT cfg \<le> miss_count (before_leaves c ms s) c t + 1"
    using assms(5,6) by (simp add: before_leaves_miss_count)
  moreover have "set (candidate_leaves c ms s) \<subseteq> set (known_tags (before_leaves c ms s) c)"
    by (auto simp: candidate_leaves_set before_leaves_known_set)
  ultimately have "saved (fst (leave_loop (LEAVE_DEBOUNCE_COUNT cfg) c (candidate_leaves c ms s)
                                (before_leaves c ms s))) c"
    by (intro leave_loop_saved_confirmed candidate_leaves_distinct assms(3)) auto
  then show ?thesis
    by (simp add: tick_unfold [OF assms(1,2)] saved_def)
qed

lemma tick_known_distinct:
  assumes "distinct (known_tags s c)"
  shows "distinct (known_tags (fst (track_clan_tick cfg c p s)) c)"
proof (cases p)
  case None
  then show ?thesis using assms by (simp add: track_clan_tick_def)
next
  case (Some ms)
  show ?thesis
  proof (cases "ms = [] \<and> SKIP_EMPTY_MEMBER_LIST cfg")
    case True
    then show ?thesis using Some assms by (simp add: track_clan_tick_def)
  next
    case guard: False
    show ?thesis
    proof (cases "known_tags s c = []")
      case True
      then show ?thesis
        using Some guard distinct_current_tags [of ms]
        by (auto simp: track_clan_tick_def Let_def known_tags_def save_strict_cache_def)
    next
      case False
      show ?thesis
        unfolding Some tick_unfold [OF False guard]
        by (simp add: leave_loop_known candidate_leaves_distinct before_leaves_known_distinct assms)
    qed
  qed
qed

lemma track_clan_start_distinct: "distinct (known_tags (track_clan_start c s) c)"
  by (simp add: track_clan_start_def known_tags_def split: option.splits)

lemma count_list_map_Join: "count_list (map Join ts) (Leave t) = 0"
  by (induction ts) simp_all

lemma count_list_map_Leave:
  "distinct ts \<Longrightarrow> count_list (map Leave ts) (Leave t) = (if t \<in> set ts then 1 else 0)"
  by (induction ts) auto

lemma leave_loop_events_only_leaves:
  "LogBaselineInit c' \<notin> set (snd (leave_loop thr c ts s))"
  by (induction ts arbitrary: s)
     (auto simp: snd_leave_loop_Cons leave_one_events simp del: leave_loop.simps(2))

lemmas tracker_eval =
  track_clan_tick_def current_tags_of_def add_member_def mk_member_def known_tags_def
  setdefault_missing_def missing_of_def miss_count_def save_strict_cache_def join_one_def
  leave_one_def set_add_def set_remove_def track_clan_start_def is_join_def is_leave_def
  Let_def poll_def persisted_AB_def fresh_state_def threshold2_def

subsection \<open>Claim C7: the empty-poll guard\<close>

text \<open>
  C7. With \<open>SKIP_EMPTY_MEMBER_LIST\<close> enabled, a poll that returns an empty roster is
  discarded: the tick returns the state it was given (known sets, miss counters, the
  baseline flags and the members files are all the same) and its only event is the log
  line, so no Join and no Leave is emitted.
\<close>

theorem empty_poll_discarded:
  assumes "SKIP_EMPTY_MEMBER_LIST cfg"
  shows "track_clan_tick cfg c (Some []) s = (s, [LogEmptySkip c])
         \<and> filter is_join (snd (track_clan_tick cfg c (Some []) s)) = []
         \<and> filter is_leave (snd (track_clan_tick cfg c (Some []) s)) = []"
  using assms by (simp add: track_clan_tick_def is_join_def is_leave_def)

theorem empty_poll_discarded_witness:
  "track_clan_tick (threshold2 True) ''#C'' (Some []) (persisted_AB ''#C'')
     = (persisted_AB ''#C'', [LogEmptySkip ''#C''])"
proof -
  have h: "SKIP_EMPTY_MEMBER_LIST (threshold2 True)"
    by (simp add: threshold2_def)
  show ?thesis
    using empty_poll_discarded [OF h, of "''#C''" "persisted_AB ''#C''"] by simp
qed

subsection \<open>Claim C3: bootstrap\<close>

text \<open>
  C3. When the known-tag set of the clan is empty (as it is after \<open>track_clan_start\<close> read
  an empty or missing members file) and the poll yields a non-empty snapshot, the tick
  adopts the tags of the snapshot as the known set, writes exactly that set to the members
  file in the same tick, and emits no Join event.
\<close>

theorem bootstrap_adopts_silently:
  assumes "known_tags s c = []" and "current_tags_of ms \<noteq> []"
  shows "case track_clan_tick cfg c (Some ms) s of (s', evs) \<Rightarrow>
           strict_join_cache s' c = Some (map fst (current_tags_of ms)) \<and>
           members_file s' c = Some (map fst (current_tags_of ms)) \<and>
           set (known_tags s' c) = {t. t \<noteq> [] \<and> (\<exists>m \<in> set ms. m_tag m = Some t)} \<and>
           filter is_join evs = []"
proof -
  have "ms \<noteq> []"
    using assms(2) by (auto simp: current_tags_of_Nil)
  then show ?thesis
    using assms set_current_tags [of ms]
    by (simp add: track_clan_tick_def Let_def save_strict_cache_def known_tags_def is_join_def)
qed

theorem bootstrap_adopts_silently_witness:
  "case track_clan_tick (threshold2 True) ''#C'' (poll [''#A'', ''#B'', ''#C''])
          (track_clan_start ''#C'' fresh_state) of (s', evs) \<Rightarrow>
     strict_join_cache s' ''#C'' = Some [''#A'', ''#B'', ''#C''] \<and>
     members_file s' ''#C'' = Some [''#A'', ''#B'', ''#C''] \<and>
     filter is_join evs = []"
proof -
  have h1: "known_tags (track_clan_start ''#C'' fresh_state) ''#C'' = []"
    by (simp add: tracker_eval)
  have h2: "current_tags_of (map mk_member [''#A'', ''#B'', ''#C'']) \<noteq> []"
    by (simp add: tracker_eval)
  have k: "map fst (current_tags_of [mk_member ''#A'', mk_member ''#B'', mk_member ''#C''])
             = [''#A'', ''#B'', ''#C'']"
    by (simp add: tracker_eval)
  show ?thesis
    using bootstrap_adopts_silently [OF h1 h2, of "threshold2 True"]
    by (simp add: poll_def k split: prod.splits)
qed

subsection \<open>Claim C2: leave debounce\<close>

text \<open>
  C2. In a tick that is processed (not discarded by the empty-poll guard), for every tag
  \<open>t\<close> of the known set that is absent from the snapshot, the miss counter is
  incremented; while the incremented counter is below \<open>LEAVE_DEBOUNCE_COUNT\<close> the tag
  stays known and no Leave is emitted; once it reaches the threshold exactly one
  \<open>Leave t\<close> is emitted, the tag is removed from the known set, its counter is cleared and
  the members file holds the new known set. In every such tick that finds the known set
  non-empty, whether or not a known tag is absent, the counters of all tags present in the
  snapshot are cleared and no Leave is emitted for them; and in every such tick a Leave is
  emitted for no other tag than a known, absent one whose counter reached the threshold.
  Concretely, with threshold 2 and persisted \<open>{#A, #B}\<close>: polls \<open>{#A}\<close>, \<open>{#A, #B}\<close> emit
  nothing and leave the counter of \<open>#B\<close> at 0 (after the first poll it is 1); polls
  \<open>{#A}\<close>, \<open>{#A}\<close> emit exactly \<open>Leave #B\<close>, in the second poll, and the members file
  then holds \<open>{#A}\<close>.
\<close>

theorem leave_debounce:
  assumes "distinct (known_tags s c)"
    and "\<not> (ms = [] \<and> SKIP_EMPTY_MEMBER_LIST cfg)"
    and "track_clan_tick cfg c (Some ms) s = (s', evs)"
  shows "(\<forall>t. t \<in> set (known_tags s c) \<and> t \<notin> set (map fst (current_tags_of ms)) \<longrightarrow>
            (miss_count s c t + 1 < LEAVE_DEBOUNCE_COUNT cfg \<longrightarrow>
               miss_count s' c t = miss_count s c t + 1 \<and> Leave t \<notin> set evs \<and>
               t \<in> set (known_tags s' c))
          \<and> (LEAVE_DEBOUNCE_COUNT cfg \<le> miss_count s c t + 1 \<longrightarrow>
               count_list evs (Leave t) = 1 \<and> t \<notin> set (known_tags s' c) \<and>
               missing_of s' c t = None \<and> members_file s' c = Some (known_tags s' c)))
       \<and> (known_tags s c \<noteq> [] \<longrightarrow>
            (\<forall>u \<in> set (map fst (current_tags_of ms)). missing_of s' c u = None \<and> Leave u \<notin> set evs))
       \<and> (\<forall>u. Leave u \<in> set evs \<longrightarrow>
            u \<in> set (known_tags s c) \<and> u \<notin> set (map fst (current_tags_of ms)) \<and>
            LEAVE_DEBOUNCE_COUNT cfg \<le> miss_count s c u + 1)
       \<and> track_clan_polls (threshold2 skip) k [poll [''#A'']] (persisted_AB k)
           = (fst (track_clan_tick (threshold2 skip) k (poll [''#A'']) (persisted_AB k)), [])
       \<and> miss_count (fst (track_clan_tick (threshold2 skip) k (poll [''#A'']) (persisted_AB k))) k ''#B'' = 1
       \<and> snd (track_clan_polls (threshold2 skip) k [poll [''#A''], poll [''#A'', ''#B'']] (persisted_AB k)) = []
       \<and> miss_count (fst (track_clan_polls (threshold2 skip) k [poll [''#A''], poll [''#A'', ''#B'']]
                             (persisted_AB k))) k ''#B'' = 0
       \<and> snd (track_clan_polls (threshold2 skip) k [poll [''#A''], poll [''#A'']] (persisted_AB k))
           = [Leave ''#B'']
       \<and> members_file (fst (track_clan_polls (threshold2 skip) k [poll [''#A''], poll [''#A'']]
                               (persisted_AB k))) k = Some [''#A'']"
proof -
  have s': "s' = fst (track_clan_tick cfg c (Some ms) s)"
    and evs: "evs = snd (track_clan_tick cfg c (Some ms) s)"
    using assms(3) by simp_all
  have absent: "(miss_count s c t + 1 < LEAVE_DEBOUNCE_COUNT cfg \<longrightarrow>
               miss_count s' c t = miss_count s c t + 1 \<and> Leave t \<notin> set evs \<and>
               t \<in> set (known_tags s' c))
          \<and> (LEAVE_DEBOUNCE_COUNT cfg \<le> miss_count s c t + 1 \<longrightarrow>
               count_list evs (Leave t) = 1 \<and> t \<notin> set (known_tags s' c) \<and>
               missing_of s' c t = None \<and> members_file s' c = Some (known_tags s' c))"
    if t: "t \<in> set (known_tags s c)" "t \<notin> set (map fst (current_tags_of ms))" for t
  proof -
    have ne: "known_tags s c \<noteq> []"
      using t(1) by auto
    note pre = ne assms(2) assms(1)
    have cand: "t \<in> set (candidate_leaves c ms s)"
      using t by (simp add: candidate_leaves_set)
    have dc: "distinct (filter (\<lambda>t. LEAVE_DEBOUNCE_COUNT cfg \<le> miss_count s c t + 1)
                          (candidate_leaves c ms s))"
      using assms(1) by (simp add: candidate_leaves_distinct)
    have below: "miss_count s c t + 1 < LEAVE_DEBOUNCE_COUNT cfg \<longrightarrow>
              miss_count s' c t = miss_count s c t + 1 \<and> Leave t \<notin> set evs \<and>
              t \<in> set (known_tags s' c)"
      using t
      by (auto simp: s' evs tick_events [OF pre] tick_known [OF pre] miss_count_def [of "fst _"]
          tick_missing [OF pre])
    have reached: "LEAVE_DEBOUNCE_COUNT cfg \<le> miss_count s c t + 1 \<longrightarrow>
              count_list evs (Leave t) = 1 \<and> t \<notin> set (known_tags s' c) \<and>
              missing_of s' c t = None \<and> members_file s' c = Some (known_tags s' c)"
      using t cand tick_saved [OF pre t]
      by (auto simp: s' evs tick_events [OF pre] tick_known [OF pre] tick_missing [OF pre]
          count_list_map_Join count_list_map_Leave [OF dc])
    from below reached show ?thesis ..
  qed
  have present: "\<forall>u \<in> set (map fst (current_tags_of ms)). missing_of s' c u = None \<and> Leave u \<notin> set evs"
    if ne: "known_tags s c \<noteq> []"
  proof -
    note pre = ne assms(2) assms(1)
    show ?thesis
      by (auto simp: s' evs tick_events [OF pre] tick_missing [OF pre] candidate_leaves_set)
  qed
  have only: "\<forall>u. Leave u \<in> set evs \<longrightarrow>
            u \<in> set (known_tags s c) \<and> u \<notin> set (map fst (current_tags_of ms)) \<and>
            LEAVE_DEBOUNCE_COUNT cfg \<le> miss_count s c u + 1"
  proof (cases "known_tags s c = []")
    case True
    have "\<forall>u. Leave u \<notin> set evs"
      using True assms(2) by (auto simp: evs track_clan_tick_def Let_def)
    then show ?thesis by blast
  next
    case False
    note pre = False assms(2) assms(1)
    show ?thesis
      by (auto simp: evs tick_events [OF pre] candidate_leaves_set)
  qed
  have run1: "track_clan_polls (threshold2 skip) k [poll [''#A'']] (persisted_AB k)
           = (fst (track_clan_tick (threshold2 skip) k (poll [''#A'']) (persisted_AB k)), [])"
    by (simp add: tracker_eval)
  have run1c: "miss_count (fst (track_clan_tick (threshold2 skip) k (poll [''#A'']) (persisted_AB k))) k ''#B'' = 1"
    by (simp add: tracker_eval)
  have run2: "snd (track_clan_polls (threshold2 skip) k [poll [''#A''], poll [''#A'', ''#B'']] (persisted_AB k)) = []"
    by (simp add: tracker_eval)
  have run2c: "miss_count (fst (track_clan_polls (threshold2 skip) k [poll [''#A''], poll [''#A'', ''#B'']]
                             (persisted_AB k))) k ''#B'' = 0"
    by (simp add: tracker_eval)
  have run3: "snd (track_clan_polls (threshold2 skip) k [poll [''#A''], poll [''#A'']] (persisted_AB k))
           = [Leave ''#B'']"
    by (simp add: tracker_eval)
  have run3f: "members_file (fst (track_clan_polls (threshold2 skip) k [poll [''#A''], poll [''#A'']]
                               (persisted_AB k))) k = Some [''#A'']"
    by (simp add: tracker_eval)
  have part1: "\<forall>t. t \<in> set (known_tags s c) \<and> t \<notin> set (map fst (current_tags_of ms)) \<longrightarrow>
            (miss_count s c t + 1 < LEAVE_DEBOUNCE_COUNT cfg \<longrightarrow>
               miss_count s' c t = miss_count s c t + 1 \<and> Leave t \<notin> set evs \<and>
               t \<in> set (known_tags s' c))
          \<and> (LEAVE_DEBOUNCE_COUNT cfg \<le> miss_count s c t + 1 \<longrightarrow>
               count_list evs (Leave t) = 1 \<and> t \<notin> set (known_tags s' c) \<and>
               missing_of s' c t = None \<and> members_file s' c = Some (known_tags s' c))"
    using absent by blast
  have part2: "known_tags s c \<noteq> [] \<longrightarrow>
            (\<forall>u \<in> set (map fst (current_tags_of ms)). missing_of s' c u = None \<and> Leave u \<notin> set evs)"
    using present by blast
  from part1 part2 only run1 run1c run2 run2c run3 run3f show ?thesis
    by (intro conjI)
qed

theorem leave_debounce_witness:
  "miss_count (fst (track_clan_tick (threshold2 True) ''#C'' (poll [''#A'']) (persisted_AB ''#C'')))
       ''#C'' ''#B'' = 1
   \<and> count_list
        (snd (track_clan_tick (threshold2 True) ''#C'' (poll [''#A''])
               (fst (track_clan_tick (threshold2 True) ''#C'' (poll [''#A'']) (persisted_AB ''#C'')))))
        (Leave ''#B'') = 1
   \<and> missing_of
        (fst (track_clan_tick (threshold2 True) ''#C'' (poll [''#A'', ''#B''])
               (fst (track_clan_tick (threshold2 True) ''#C'' (poll [''#A'']) (persisted_AB ''#C'')))))
        ''#C'' ''#B'' = None
   \<and> Leave ''#B'' \<notin> set
        (snd (track_clan_tick (threshold2 True) ''#C'' (poll [''#A'', ''#B''])
               (fst (track_clan_tick (threshold2 True) ''#C'' (poll [''#A'']) (persisted_AB ''#C'')))))"
proof -
  define s0 where "s0 = persisted_AB ''#C''"
  define s1 where "s1 = fst (track_clan_tick (threshold2 True) ''#C'' (poll [''#A'']) s0)"
  have a1: "''#B'' \<in> set (known_tags s0 ''#C'')" and a2: "distinct (known_tags s0 ''#C'')"
    and a3: "\<not> (map mk_member [''#A''] = [] \<and> SKIP_EMPTY_MEMBER_LIST (threshold2 True))"
    and a4: "''#B'' \<notin> set (map fst (current_tags_of (map mk_member [''#A''])))"
    and c0: "miss_count s0 ''#C'' ''#B'' = 0"
    by (simp_all add: s0_def tracker_eval)
  have b1: "''#B'' \<in> set (known_tags s1 ''#C'')" and b2: "distinct (known_tags s1 ''#C'')"
    and c1: "miss_count s1 ''#C'' ''#B'' = 1" and b3: "known_tags s1 ''#C'' \<noteq> []"
    by (simp_all add: s1_def s0_def tracker_eval)
  have a5: "\<not> (map mk_member [''#A'', ''#B''] = [] \<and> SKIP_EMPTY_MEMBER_LIST (threshold2 True))"
    and a6: "''#B'' \<in> set (map fst (current_tags_of (map mk_member [''#A'', ''#B''])))"
    by (simp_all add: tracker_eval)
  have thr: "LEAVE_DEBOUNCE_COUNT (threshold2 True) = 2"
    by (simp add: threshold2_def)
  note T0 = leave_debounce [OF a2 a3 prod.collapse [symmetric], THEN conjunct1, THEN spec,
                            of "''#B''", THEN mp, OF conjI [OF a1 a4], THEN conjunct1]
  have first: "miss_count s1 ''#C'' ''#B'' = 1"
    using T0 c0 by (simp add: s1_def poll_def thr)
  note T1 = leave_debounce [OF b2 a3 prod.collapse [symmetric], THEN conjunct1, THEN spec,
                            of "''#B''", THEN mp, OF conjI [OF b1 a4], THEN conjunct2]
  have second: "count_list (snd (track_clan_tick (threshold2 True) ''#C'' (poll [''#A'']) s1))
                  (Leave ''#B'') = 1"
    using T1 c1 by (simp add: poll_def thr)
  note T2 = leave_debounce [OF b2 a5 prod.collapse [symmetric], THEN conjunct2, THEN conjunct1,
                            THEN mp, OF b3, THEN bspec, OF a6]
  have third: "missing_of (fst (track_clan_tick (threshold2 True) ''#C'' (poll [''#A'', ''#B'']) s1))
                 ''#C'' ''#B'' = None
               \<and> Leave ''#B'' \<notin> set (snd (track_clan_tick (threshold2 True) ''#C''
                                              (poll [''#A'', ''#B'']) s1))"
    using T2 by (simp add: poll_def)
  from first second third show ?thesis
    by (simp add: s1_def s0_def)
qed

subsection \<open>Claim C9: how often the silent bootstrap happens\<close>

lemma tick_log_cases:
  "(snd (track_clan_tick cfg c p s) = [LogBaselineInit c] \<and> c \<notin> initialized_baseline s \<and>
      initialized_baseline (fst (track_clan_tick cfg c p s)) = insert c (initialized_baseline s))
   \<or> (LogBaselineInit c \<notin> set (snd (track_clan_tick cfg c p s)) \<and>
      initialized_baseline (fst (track_clan_tick cfg c p s)) = initialized_baseline s)"
proof (cases p)
  case None
  then show ?thesis by (simp add: track_clan_tick_def)
next
  case (Some ms)
  show ?thesis
  proof (cases "ms = [] \<and> SKIP_EMPTY_MEMBER_LIST cfg")
    case True
    then show ?thesis using Some by (simp add: track_clan_tick_def)
  next
    case guard: False
    show ?thesis
    proof (cases "known_tags s c = []")
      case True
      then show ?thesis
        using Some guard by (auto simp: track_clan_tick_def Let_def)
    next
      case False
      show ?thesis
        unfolding Some tick_unfold [OF False guard]
        by (auto simp: leave_loop_init before_leaves_init join_loop_events
            leave_loop_events_only_leaves)
    qed
  qed
qed

lemma polls_log_once:
  "initialized_baseline s \<subseteq> initialized_baseline (fst (track_clan_polls cfg c ps s))
   \<and> (c \<in> initialized_baseline s \<longrightarrow> LogBaselineInit c \<notin> set (snd (track_clan_polls cfg c ps s)))
   \<and> count_list (snd (track_clan_polls cfg c ps s)) (LogBaselineInit c) \<le> 1"
proof (induction ps arbitrary: s)
  case Nil
  then show ?case by simp
next
  case (Cons p ps)
  define s1 where "s1 = fst (track_clan_tick cfg c p s)"
  define e1 where "e1 = snd (track_clan_tick cfg c p s)"
  have run: "track_clan_polls cfg c (p # ps) s =
               (fst (track_clan_polls cfg c ps s1), e1 @ snd (track_clan_polls cfg c ps s1))"
    by (simp add: s1_def e1_def split: prod.splits)
  note IH = Cons.IH [of s1]
  from tick_log_cases [of cfg c p s]
  consider (logged) "e1 = [LogBaselineInit c]" "c \<notin> initialized_baseline s"
      "initialized_baseline s1 = insert c (initialized_baseline s)"
    | (quiet) "LogBaselineInit c \<notin> set e1" "initialized_baseline s1 = initialized_baseline s"
    by (auto simp: s1_def e1_def)
  then show ?case
  proof cases
    case logged
    then have "c \<in> initialized_baseline s1" by simp
    with IH have "LogBaselineInit c \<notin> set (snd (track_clan_polls cfg c ps s1))" by simp
    then have "count_list (snd (track_clan_polls cfg c ps s1)) (LogBaselineInit c) = 0"
      by (simp add: count_list_0_iff)
    with logged IH show ?thesis
      unfolding run by auto
  next
    case quiet
    then have "count_list e1 (LogBaselineInit c) = 0"
      by (simp add: count_list_0_iff)
    with quiet IH show ?thesis
      unfolding run by auto
  qed
qed

text \<open>
  C9 as the claim states it fails: with \<open>SKIP_EMPTY_MEMBER_LIST\<close> off and threshold 2, the
  polls \<open>{#A}\<close>, \<open>{}\<close>, \<open>{}\<close> bootstrap the clan (the baseline flag is set), then confirm
  the leave of \<open>#A\<close>, which empties the known set and the members file; the next poll
  \<open>{#B}\<close> is adopted with no event at all, so \<open>#B\<close> joins without a Join.
\<close>

theorem bootstrap_once_counterexample:
  "snd emptied_run = [LogBaselineInit ''#C'', Leave ''#A'']
   \<and> ''#C'' \<in> initialized_baseline (fst emptied_run)
   \<and> known_tags (fst emptied_run) ''#C'' = []
   \<and> members_file (fst emptied_run) ''#C'' = Some []
   \<and> snd (track_clan_tick (threshold2 False) ''#C'' (poll [''#B'']) (fst emptied_run)) = []
   \<and> known_tags (fst (track_clan_tick (threshold2 False) ''#C'' (poll [''#B'']) (fst emptied_run))) ''#C''
       = [''#B'']"
  by (simp add: emptied_run_def tracker_eval)

text \<open>
  C9, amended. The silent bootstrap is not limited to once per clan: in every processed
  tick in which the known-tag set of the clan is empty and the snapshot is not, the
  snapshot is adopted and saved without a Join event, also when the baseline flag of the
  clan is already set (then the tick emits nothing at all). What the flag
  \<open>initialized_baseline\<close> limits to once per clan and process is the log line
  "Baseline initialized": over any sequence of polls it is written at most once, and
  never when the flag was set at the start.
\<close>

theorem silent_adoption_whenever_empty:
  "(known_tags s c = [] \<and> current_tags_of ms \<noteq> [] \<and> c \<in> initialized_baseline s \<longrightarrow>
      track_clan_tick cfg c (Some ms) s =
        (save_strict_cache c
           (s\<lparr>strict_join_cache := (strict_join_cache s)(c \<mapsto> map fst (current_tags_of ms))\<rparr>), []))
   \<and> count_list (snd (track_clan_polls cfg c ps s0)) (LogBaselineInit c) \<le> 1
   \<and> (c \<in> initialized_baseline s0 \<longrightarrow>
        LogBaselineInit c \<notin> set (snd (track_clan_polls cfg c ps s0)))"
proof -
  have "track_clan_tick cfg c (Some ms) s =
        (save_strict_cache c
           (s\<lparr>strict_join_cache := (strict_join_cache s)(c \<mapsto> map fst (current_tags_of ms))\<rparr>), [])"
    if "known_tags s c = []" "current_tags_of ms \<noteq> []" "c \<in> initialized_baseline s"
  proof -
    have "ms \<noteq> []"
      using that(2) by (auto simp: current_tags_of_Nil)
    then show ?thesis
      using that by (simp add: track_clan_tick_def Let_def)
  qed
  then show ?thesis
    using polls_log_once [of s0 cfg c ps] by blast
qed

theorem silent_adoption_whenever_empty_witness:
  "track_clan_tick (threshold2 False) ''#C'' (poll [''#B'']) (fst emptied_run) =
     (save_strict_cache ''#C''
        ((fst emptied_run)\<lparr>strict_join_cache :=
            (strict_join_cache (fst emptied_run))(''#C'' \<mapsto> [''#B''])\<rparr>), [])
   \<and> LogBaselineInit ''#C'' \<notin>
        set (snd (track_clan_polls (threshold2 False) ''#C'' [poll [''#B'']] (fst emptied_run)))"
proof -
  have h: "known_tags (fst emptied_run) ''#C'' = []"
      "current_tags_of (map mk_member [''#B'']) \<noteq> []"
      "''#C'' \<in> initialized_baseline (fst emptied_run)"
    by (simp_all add: emptied_run_def tracker_eval)
  have k: "map fst (current_tags_of [mk_member ''#B'']) = [''#B'']"
    by (simp add: tracker_eval)
  show ?thesis
    using silent_adoption_whenever_empty
            [of "fst emptied_run" "''#C''" "map mk_member [''#B'']" "threshold2 False"
                "[poll [''#B'']]" "fst emptied_run"] h
    by (simp add: poll_def k)
qed

section \<open>Properties of the donation delta engine\<close>

lemma first_index_None: "first_index P xs = None \<longleftrightarrow> (\<forall>x \<in> set xs. \<not> P x)"
  by (induction xs) auto

lemma first_index_Some:
  "first_index P xs = Some i \<Longrightarrow> i < length xs \<and> P (xs ! i) \<and> (\<forall>j < i. \<not> P (xs ! j))"
proof (induction xs arbitrary: i)
  case Nil
  then show ?case by simp
next
  case (Cons x xs)
  show ?case
  proof (cases "P x")
    case True
    with Cons.prems show ?thesis by simp
  next
    case False
    with Cons.prems obtain k where k: "first_index P xs = Some k" "i = Suc k"
      by auto
    from Cons.IH [OF k(1)] False show ?thesis
      by (auto simp: k(2) less_Suc_eq_0_disj)
  qed
qed

lemma update_fresh_key: "k \<notin> fst ` set al \<Longrightarrow> AList.update k v al = al @ [(k, v)]"
  by (induction al) auto

lemma map_of_map_keyed:
  "map_of (map (\<lambda>(k, v). (k, f k v)) xs) k = map_option (f k) (map_of xs k)"
  by (induction xs) auto

lemma monthly_loop_closed:
  assumes "distinct (map fst items)" and "fst ` set acc \<inter> fst ` set items = {}"
  shows "foldl (monthly_step prev_members) (acc, tot) items =
           (acc @ map (\<lambda>(tag, data). (tag, \<lparr>name = name data, seasonal = seasonal data,
                                                lifetime = lifetime data,
                                                monthly = monthly_figure prev_members tag data\<rparr>)) items,
            tot + sum_list (map (\<lambda>(tag, data). monthly_figure prev_members tag data) items))"
  using assms
proof (induction items arbitrary: acc tot)
  case Nil
  then show ?case by simp
next
  case (Cons item items)
  obtain tag data where item: "item = (tag, data)"
    by (cases item)
  have fresh: "tag \<notin> fst ` set acc"
    using Cons.prems(2) by (auto simp: item)
  have step: "monthly_step prev_members (acc, tot) item =
      (acc @ [(tag, \<lparr>name = name data, seasonal = seasonal data, lifetime = lifetime data,
                     monthly = monthly_figure prev_members tag data\<rparr>)],
       tot + monthly_figure prev_members tag data)"
    by (simp add: monthly_step_def item Let_def monthly_figure_def update_fresh_key [OF fresh])
  have d: "distinct (map fst items)"
    using Cons.prems(1) by simp
  have disj: "fst ` set (acc @ [(tag, \<lparr>name = name data, seasonal = seasonal data,
                 lifetime = lifetime data, monthly = monthly_figure prev_members tag data\<rparr>)])
              \<inter> fst ` set items = {}"
    using Cons.prems by (auto simp: item)
  show ?case
    unfolding foldl_Cons step Cons.IH [OF d disj]
    by (simp add: item)
qed

lemma preceding_snapshot:
  assumes "target \<in> set snaps" and "date target = month_key"
    and "p \<in> set snaps" and "date p < month_key"
  shows "\<exists>i. first_index (\<lambda>s. date s = month_key) (sort_key date snaps) = Some (Suc i)
           \<and> sort_key date snaps ! i \<in> set snaps
           \<and> date (sort_key date snaps ! i) < month_key
           \<and> (\<forall>q \<in> set snaps. date q < month_key \<longrightarrow> date q \<le> date (sort_key date snaps ! i))"
proof -
  define srt where "srt = sort_key date snaps"
  have srt_sorted: "sorted (map date srt)" and srt_set: "set srt = set snaps"
    by (simp_all add: srt_def)
  have mono: "date (srt ! a) \<le> date (srt ! b)" if "a \<le> b" "b < length srt" for a b
    using sorted_nth_mono [OF srt_sorted, of a b] that by simp
  have "\<exists>x \<in> set srt. date x = month_key"
    using assms(1,2) srt_set by auto
  then obtain k where k: "first_index (\<lambda>s. date s = month_key) srt = Some k"
    using first_index_None [of "\<lambda>s. date s = month_key" srt] by (cases "first_index (\<lambda>s. date s = month_key) srt") auto
  from first_index_Some [OF k]
  have klen: "k < length srt" and kdate: "date (srt ! k) = month_key"
    and kmin: "\<forall>j < k. date (srt ! j) \<noteq> month_key"
    by auto
  have below: "j < k" if "j < length srt" "date (srt ! j) < month_key" for j
  proof (rule ccontr)
    assume "\<not> j < k"
    then have "date (srt ! k) \<le> date (srt ! j)"
      using mono [of k j] that(1) by simp
    with kdate that(2) show False by simp
  qed
  from assms(3) have "p \<in> set srt"
    unfolding srt_set .
  then obtain jp where jp: "jp < length srt" "srt ! jp = p"
    unfolding in_set_conv_nth by blast
  have "date (srt ! jp) < month_key"
    unfolding jp(2) by (rule assms(4))
  then have "jp < k"
    by (rule below [OF jp(1)])
  then obtain i where i: "k = Suc i"
    by (cases k) auto
  have ilen: "i < length srt"
    using klen i by simp
  have "date (srt ! i) \<le> month_key"
    using mono [of i k] klen i kdate by simp
  moreover have "date (srt ! i) \<noteq> month_key"
    using kmin i by simp
  ultimately have ilt: "date (srt ! i) < month_key"
    by simp
  have imax: "date q \<le> date (srt ! i)" if "q \<in> set snaps" "date q < month_key" for q
  proof -
    from that(1) have "q \<in> set srt"
      unfolding srt_set .
    then obtain jq where jq: "jq < length srt" "srt ! jq = q"
      unfolding in_set_conv_nth by blast
    have "date (srt ! jq) < month_key"
      unfolding jq(2) by (rule that(2))
    then have "jq < k"
      by (rule below [OF jq(1)])
    then have "jq \<le> i"
      using i by simp
    then have "date (srt ! jq) \<le> date (srt ! i)"
      using ilen by (intro mono)
    then show ?thesis
      unfolding jq(2) .
  qed
  have "srt ! i \<in> set snaps"
    using ilen srt_set nth_mem by blast
  with k i ilt imax show ?thesis
    unfolding srt_def by blast
qed

lemmas donation_eval =
  calculate_monthly_donations_def two_months_def mk_entry_def monthly_step_def
  first_snapshot_report_def Let_def monthly_figure_def

subsection \<open>Claim C8: the monthly delta\<close>

text \<open>
  C8. When the clan has a snapshot for month \<open>M\<close> and some snapshot with an earlier
  month, \<open>calculate_monthly_donations\<close> returns a report computed against a snapshot
  \<open>prev\<close> that is chronologically preceding (its month is earlier than \<open>M\<close> and no
  snapshot of the clan lies strictly between). The report lists exactly the members of the
  snapshot of \<open>M\<close>; for a member with an entry in \<open>prev\<close> the monthly figure is
  \<open>max 0 (current seasonal - previous seasonal)\<close>, hence never negative; for a member
  without an entry in \<open>prev\<close> it is the current seasonal counter; and the total is the sum
  of the monthly figures of the report. With seasonal counters 50 then 80 the delta is 30,
  with 80 then 10 it is 0.
\<close>

theorem donation_delta:
  assumes "snapshots clan = Some snaps"
    and "List.find (\<lambda>s. date s = month_key) snaps = Some target"
    and "\<exists>p \<in> set snaps. date p < month_key"
    and "distinct (map fst (members target))"
  shows "\<exists>prev report.
           calculate_monthly_donations snapshots current_month clan (Some month_key) = Some report
         \<and> prev \<in> set snaps \<and> date prev < month_key
         \<and> (\<forall>q \<in> set snaps. date q < month_key \<longrightarrow> date q \<le> date prev)
         \<and> map fst (r_members report) = map fst (members target)
         \<and> (\<forall>(tag, data) \<in> set (members target).
              \<exists>e. map_of (r_members report) tag = Some e \<and> seasonal e = seasonal data \<and>
                (case map_of (members prev) tag of
                   Some prev_data \<Rightarrow> monthly e = max 0 (seasonal data - seasonal prev_data) \<and> 0 \<le> monthly e
                 | None \<Rightarrow> monthly e = seasonal data))
         \<and> r_total_monthly report = sum_list (map (\<lambda>(tag, e). monthly e) (r_members report))
         \<and> r_note report = None"
proof -
  have found: "target \<in> set snaps" "date target = month_key"
    using assms(2) by (auto simp: find_Some_iff)
  then have ne: "snaps \<noteq> []"
    by auto
  obtain p where p: "p \<in> set snaps" "date p < month_key"
    using assms(3) by auto
  from preceding_snapshot [OF found p]
  obtain i where i: "first_index (\<lambda>s. date s = month_key) (sort_key date snaps) = Some (Suc i)"
    and prev_in: "sort_key date snaps ! i \<in> set snaps"
    and prev_lt: "date (sort_key date snaps ! i) < month_key"
    and prev_max: "\<forall>q \<in> set snaps. date q < month_key \<longrightarrow> date q \<le> date (sort_key date snaps ! i)"
    by blast
  define prev where "prev = sort_key date snaps ! i"
  define entries where "entries =
      map (\<lambda>(tag, data). (tag, \<lparr>name = name data, seasonal = seasonal data, lifetime = lifetime data,
                                  monthly = monthly_figure (members prev) tag data\<rparr>)) (members target)"
  define report where "report =
      \<lparr>r_month = month_key, r_members = entries,
       r_total_monthly = sum_list (map (\<lambda>(tag, data). monthly_figure (members prev) tag data) (members target)),
       r_note = None\<rparr>"
  have loop: "foldl (monthly_step (members prev)) ([], 0) (members target) =
                (entries, sum_list (map (\<lambda>(tag, data). monthly_figure (members prev) tag data) (members target)))"
    using monthly_loop_closed [OF assms(4), of "[]" "members prev" 0] by (simp add: entries_def)
  have result: "calculate_monthly_donations snapshots current_month clan (Some month_key) = Some report"
    using ne loop
    by (simp add: calculate_monthly_donations_def assms(1,2) i prev_def [symmetric] report_def)
  have keys: "map fst (r_members report) = map fst (members target)"
    by (simp add: report_def entries_def case_prod_unfold comp_def)
  have total: "r_total_monthly report = sum_list (map (\<lambda>(tag, e). monthly e) (r_members report))"
    by (simp add: report_def entries_def case_prod_unfold comp_def)
  have each: "\<exists>e. map_of (r_members report) tag = Some e \<and> seasonal e = seasonal data \<and>
                (case map_of (members prev) tag of
                   Some prev_data \<Rightarrow> monthly e = max 0 (seasonal data - seasonal prev_data) \<and> 0 \<le> monthly e
                 | None \<Rightarrow> monthly e = seasonal data)"
    if "(tag, data) \<in> set (members target)" for tag data
  proof -
    have "map_of (members target) tag = Some data"
      using that assms(4) by simp
    then have "map_of (r_members report) tag =
        Some \<lparr>name = name data, seasonal = seasonal data, lifetime = lifetime data,
              monthly = monthly_figure (members prev) tag data\<rparr>"
      by (simp add: report_def entries_def map_of_map_keyed)
    then show ?thesis
      by (auto simp: monthly_figure_def split: option.splits)
  qed
  show ?thesis
    using result prev_in prev_lt prev_max keys total each
    by (intro exI [of _ prev] exI [of _ report]) (auto simp: prev_def report_def)
qed

theorem donation_delta_witness:
  "map_option r_total_monthly
     (calculate_monthly_donations (two_months 50 80) ''2024-03'' ''#C'' (Some ''2024-02'')) = Some 30
   \<and> map_option r_total_monthly
     (calculate_monthly_donations (two_months 80 10) ''2024-03'' ''#C'' (Some ''2024-02'')) = Some 0
   \<and> map_option r_note
     (calculate_monthly_donations (two_months 80 10) ''2024-03'' ''#C'' (Some ''2024-02'')) = Some None"
proof -
  define feb where "feb b = \<lparr>date = ''2024-02'', timestamp = '''', members = [(''#P'', mk_entry ''p'' b)]\<rparr>"
    for b :: int
  define jan where "jan a = \<lparr>date = ''2024-01'', timestamp = '''', members = [(''#P'', mk_entry ''p'' a)]\<rparr>"
    for a :: int
  have h1: "two_months a b ''#C'' = Some [feb b, jan a]" for a b
    by (simp add: two_months_def feb_def jan_def)
  have h2: "List.find (\<lambda>s. date s = ''2024-02'') [feb b, jan a] = Some (feb b)" for a b
    by (simp add: feb_def)
  have h3: "\<exists>p \<in> set [feb b, jan a]. date p < ''2024-02''" for a b
    by (simp add: jan_def)
  have h4: "distinct (map fst (members (feb b)))" for b
    by (simp add: feb_def)
  from donation_delta [where snapshots = "two_months 80 10" and clan = "''#C''"
                         and current_month = "''2024-03''",
                       OF h1 [where a = 80 and b = 10] h2 [where a = 80 and b = 10]
                          h3 [where a = 80 and b = 10] h4 [where b = 10]]
  obtain report where
    "calculate_monthly_donations (two_months 80 10) ''2024-03'' ''#C'' (Some ''2024-02'') = Some report"
    "r_note report = None"
    by blast
  then have note_none: "map_option r_note
     (calculate_monthly_donations (two_months 80 10) ''2024-03'' ''#C'' (Some ''2024-02'')) = Some None"
    by simp
  have "map_option r_total_monthly
     (calculate_monthly_donations (two_months 50 80) ''2024-03'' ''#C'' (Some ''2024-02'')) = Some 30"
    by (simp add: donation_eval)
  moreover have "map_option r_total_monthly
     (calculate_monthly_donations (two_months 80 10) ''2024-03'' ''#C'' (Some ''2024-02'')) = Some 0"
    by (simp add: donation_eval)
  ultimately show ?thesis
    using note_none by simp
qed

section \<open>Properties of the TTL cache\<close>

lemma cache_get_entry:
  "cache k = Some (v, stored_at) \<Longrightarrow>
   cache_get now k ttl cache =
     (if now - stored_at < ttl then (v, cache) else (None, cache(k := None)))"
  by (simp add: cache_get_def)

lemma cache_get_absent: "cache k = None \<Longrightarrow> cache_get now k ttl cache = (None, cache)"
  by (simp add: cache_get_def)

lemma cache_gets_absent:
  "cache k = None \<Longrightarrow> cache_gets reads k cache = (map (\<lambda>_. None) reads, cache)"
  by (induction reads) (auto simp: cache_get_absent)

lemma cache_gets_fresh:
  "cache k = Some (v, stored_at) \<Longrightarrow> \<forall>(n, t) \<in> set reads. n - stored_at < t \<Longrightarrow>
   cache_gets reads k cache = (map (\<lambda>_. v) reads, cache)"
  by (induction reads) (auto simp: cache_get_entry)

lemma cache_gets_stale:
  "cache k = Some (v, stored_at) \<Longrightarrow> \<exists>(n, t) \<in> set reads. \<not> n - stored_at < t \<Longrightarrow>
   snd (cache_gets reads k cache) k = None"
proof (induction reads)
  case Nil
  then show ?case by simp
next
  case (Cons r reads)
  obtain n t where r: "r = (n, t)"
    by (cases r)
  show ?case
  proof (cases "n - stored_at < t")
    case True
    with Cons show ?thesis
      by (auto simp: r cache_get_entry split: prod.splits)
  next
    case False
    then have "cache_get n k t cache = (None, cache(k := None))"
      using Cons.prems(1) by (simp add: cache_get_entry)
    then show ?thesis
      by (simp add: r cache_gets_absent)
  qed
qed

subsection \<open>Claim C4: the TTL is supplied per read\<close>

text \<open>
  C4 as the claim states it fails: a value stored at time 0 is read at time 5 with TTL 1,
  which finds it stale and deletes it; the read at time 6 with TTL 100, under which the
  entry would be fresh, misses.
\<close>

theorem per_read_ttl_counterexample:
  "fst (cache_get 6 ''k'' 100
          (snd (cache_gets [(5, 1)] ''k'' (cache_set 0 ''k'' (Some ''v'') Map.empty)))) = None
   \<and> (6 :: real) - 0 < 100 \<and> \<not> (5 :: real) - 0 < 1"
  by (simp add: cache_get_def cache_set_def)

text \<open>
  C4, amended. The TTL is an argument of \<open>get\<close> and is not stored: for an entry
  \<open>(v, stored_at)\<close> a read at time \<open>now\<close> returns \<open>v\<close> if \<open>now - stored_at < ttl\<close>
  and a miss otherwise. A read that finds the entry stale removes it. So after earlier
  reads that all found the entry fresh under their own TTLs, the cache is unchanged and a
  read returns \<open>v\<close> exactly when the entry is fresh under its TTL; after an earlier read
  that found it stale, the key is absent and every read misses, whatever its TTL.
\<close>

theorem per_read_ttl:
  assumes "cache k = Some (v, stored_at)"
  shows "fst (cache_get now k ttl cache) = (if now - stored_at < ttl then v else None)
       \<and> ((\<forall>(n, t) \<in> set reads. n - stored_at < t) \<longrightarrow>
            cache_gets reads k cache = (map (\<lambda>_. v) reads, cache) \<and>
            fst (cache_get now k ttl (snd (cache_gets reads k cache)))
              = (if now - stored_at < ttl then v else None))
       \<and> ((\<exists>(n, t) \<in> set reads. \<not> n - stored_at < t) \<longrightarrow>
            snd (cache_gets reads k cache) k = None \<and>
            fst (cache_get now k ttl (snd (cache_gets reads k cache))) = None)"
  using assms cache_gets_fresh [of cache k v stored_at reads]
    cache_gets_stale [of cache k v stored_at reads]
  by (auto simp: cache_get_entry cache_get_absent)

theorem per_read_ttl_witness:
  "fst (cache_get 6 ''k'' 100
          (snd (cache_gets [(5, 10)] ''k'' (cache_set 0 ''k'' (Some ''v'') Map.empty)))) = Some ''v''
   \<and> fst (cache_get 6 ''k'' 100
          (snd (cache_gets [(5, 1)] ''k'' (cache_set 0 ''k'' (Some ''v'') Map.empty)))) = None"
proof -
  have h: "cache_set 0 ''k'' (Some ''v'') Map.empty ''k'' = Some (Some ''v'', 0)"
    by (simp add: cache_set_def)
  have fresh: "\<forall>(n, t) \<in> set [(5 :: real, 10 :: real)]. n - 0 < t"
    by simp
  have stale: "\<exists>(n, t) \<in> set [(5 :: real, 1 :: real)]. \<not> n - 0 < t"
    by simp
  from per_read_ttl [of "cache_set 0 ''k'' (Some ''v'') Map.empty" "''k''" "Some ''v''" 0
                      6 100 "[(5, 10)]"] h fresh
  have a: "fst (cache_get 6 ''k'' 100
          (snd (cache_gets [(5, 10)] ''k'' (cache_set 0 ''k'' (Some ''v'') Map.empty)))) = Some ''v''"
    by simp
  from per_read_ttl [of "cache_set 0 ''k'' (Some ''v'') Map.empty" "''k''" "Some ''v''" 0
                      6 100 "[(5, 1)]"] h stale
  have b: "fst (cache_get 6 ''k'' 100
          (snd (cache_gets [(5, 1)] ''k'' (cache_set 0 ''k'' (Some ''v'') Map.empty)))) = None"
    by blast
  from a b show ?thesis ..
qed

section \<open>Properties of the API gateway\<close>

lemmas gateway_eval =
  make_request_def coc_get_def coc_fetch_def select_coc_key_def get_egress_ip_def
  try_key_and_fetch_def send_request_def cache_get_def cache_set_def truthy_def ttl_for_def
  ends_with_def COC_API_BASE_URL_def always_404_def one_key_def
  gateway_init_def Let_def

subsection \<open>Claim C5: a not-found answer and the cache\<close>

text \<open>
  C5. The code behind the claim, evaluated where the upstream answers 404. In
  \<open>_make_request\<close> the first lookup sends one request and stores \<open>None\<close> for the key with
  the time of the store; the second lookup, 10 seconds later and well inside the TTL of
  300, finds that entry, but a stored \<open>None\<close> is what \<open>get\<close> returns for a miss too, so
  the test \<open>cached is not None\<close> fails and a second request is sent. \<open>coc_get\<close> stores
  nothing on a 404 and sends a second request as well.
\<close>

theorem not_found_is_fetched_again:
  "fst first_lookup = None
   \<and> api_cache (snd first_lookup) ''player:#P'' = Some (None, 11)
   \<and> requests (snd first_lookup) = [(''https://api.clashofclans.com/v1/players/%23P'', ''KEY_A'')]
   \<and> fst second_lookup = None
   \<and> requests (snd second_lookup) =
       [(''https://api.clashofclans.com/v1/players/%23P'', ''KEY_A''),
        (''https://api.clashofclans.com/v1/players/%23P'', ''KEY_A'')]
   \<and> api_cache (snd first_coc_get) ''coc:/players/%23P'' = None
   \<and> requests (snd second_coc_get) =
       [(''https://api.clashofclans.com/v1/players/%23P'', ''KEY_A''),
        (''https://api.clashofclans.com/v1/players/%23P'', ''KEY_A'')]"
  by (simp add: first_lookup_def second_lookup_def first_coc_get_def second_coc_get_def gateway_eval)

subsection \<open>Claim C6: credential failover\<close>











section \<open>Properties of request coalescing\<close>

lemmas coalescer_eval =
  run_def call_def register_def resume_def settle_def cleanup_def result_of_def
  cache_get_def cache_set_def coalescer_init_def overlap_schedule_def Let_def

subsection \<open>Claim C10: the identity test of the cleanup\<close>

text \<open>
  C10. The cleanup of a caller that awaited \<open>future\<close> under \<open>key\<close> deletes the entry of
  \<open>key\<close> exactly when that entry is \<open>future\<close>: an entry holding another future stays, the
  entries of other keys stay, and afterwards \<open>key\<close> does not map to \<open>future\<close>; if the
  entry was still \<open>future\<close>, the key is absent. A woken caller (its future is done)
  performs exactly this cleanup and obtains the outcome of its future. In the overlap
  schedule, waking caller 2, who awaited the first fetch, leaves the entry of the second
  fetch in place.
\<close>

theorem cleanup_identity_guard:
  "(p key = Some g \<and> g \<noteq> future \<longrightarrow> cleanup key future p = p)
   \<and> (k \<noteq> key \<longrightarrow> cleanup key future p k = p k)
   \<and> cleanup key future p key \<noteq> Some future
   \<and> (p key = Some future \<longrightarrow> cleanup key future p key = None)
   \<and> (awaiting s caller = Some (key, future) \<and> settled s future = Some out \<longrightarrow>
        pending (resume caller s) = cleanup key future (pending s) \<and>
        returned (resume caller s) caller = Some out \<and>
        awaiting (resume caller s) caller = None \<and>
        created (resume caller s) = created s)
   \<and> awaiting (run overlap_schedule coalescer_init) 2 = Some (''k'', 0)
   \<and> pending (run overlap_schedule coalescer_init) ''k'' = Some 1
   \<and> pending (run (overlap_schedule @ [Resume 2]) coalescer_init) ''k'' = Some 1
   \<and> returned (run (overlap_schedule @ [Resume 2]) coalescer_init) 2 = Some (Returned None)"
proof -
  have a: "p key = Some g \<and> g \<noteq> future \<longrightarrow> cleanup key future p = p"
    by (simp add: cleanup_def)
  have b: "k \<noteq> key \<longrightarrow> cleanup key future p k = p k"
    by (simp add: cleanup_def)
  have c: "cleanup key future p key \<noteq> Some future"
    by (simp add: cleanup_def)
  have d: "p key = Some future \<longrightarrow> cleanup key future p key = None"
    by (simp add: cleanup_def)
  have e: "awaiting s caller = Some (key, future) \<and> settled s future = Some out \<longrightarrow>
        pending (resume caller s) = cleanup key future (pending s) \<and>
        returned (resume caller s) caller = Some out \<and>
        awaiting (resume caller s) caller = None \<and>
        created (resume caller s) = created s"
    by (simp add: resume_def)
  have f: "awaiting (run overlap_schedule coalescer_init) 2 = Some (''k'', 0)"
    by (simp add: coalescer_eval)
  have g: "pending (run overlap_schedule coalescer_init) ''k'' = Some 1"
    by (simp add: coalescer_eval)
  have h: "pending (run (overlap_schedule @ [Resume 2]) coalescer_init) ''k'' = Some 1"
    by (simp add: coalescer_eval)
  have i: "returned (run (overlap_schedule @ [Resume 2]) coalescer_init) 2 = Some (Returned None)"
    by (simp add: coalescer_eval)
  from a b c d e f g h i show ?thesis
    by (intro conjI)
qed

theorem cleanup_identity_guard_witness:
  "cleanup ''k'' 0 [''k'' \<mapsto> 1] = [''k'' \<mapsto> 1]
   \<and> cleanup ''k'' 0 [''k'' \<mapsto> 0] ''k'' = None
   \<and> cleanup ''k'' 0 [''k'' \<mapsto> 0, ''j'' \<mapsto> 2] ''j'' = Some 2
   \<and> pending (resume 2 (run overlap_schedule coalescer_init))
       = cleanup ''k'' 0 (pending (run overlap_schedule coalescer_init))"
proof -
  have "[''k'' \<mapsto> 1 :: nat] ''k'' = Some 1 \<and> (1 :: nat) \<noteq> 0"
    by simp
  with cleanup_identity_guard [where p = "[''k'' \<mapsto> 1]" and key = "''k''" and g = 1 and future = 0,
         THEN conjunct1]
  have w1: "cleanup ''k'' 0 [''k'' \<mapsto> 1] = [''k'' \<mapsto> 1]"
    by (rule mp)
  have "[''k'' \<mapsto> 0 :: nat] ''k'' = Some 0"
    by simp
  with cleanup_identity_guard [where p = "[''k'' \<mapsto> 0]" and key = "''k''" and future = 0,
         THEN conjunct2, THEN conjunct2, THEN conjunct2, THEN conjunct1]
  have w2: "cleanup ''k'' 0 [''k'' \<mapsto> 0] ''k'' = None"
    by (rule mp)
  have "''j'' \<noteq> ''k''"
    by simp
  with cleanup_identity_guard [where p = "[''k'' \<mapsto> 0, ''j'' \<mapsto> 2]" and key = "''k''"
         and future = 0 and k = "''j''", THEN conjunct2, THEN conjunct1]
  have "cleanup ''k'' 0 [''k'' \<mapsto> 0, ''j'' \<mapsto> 2] ''j'' = [''k'' \<mapsto> 0, ''j'' \<mapsto> 2 :: nat] ''j''"
    by (rule mp)
  then have w3: "cleanup ''k'' 0 [''k'' \<mapsto> 0, ''j'' \<mapsto> 2] ''j'' = Some 2"
    by simp
  have "awaiting (run overlap_schedule coalescer_init) 2 = Some (''k'', 0)
        \<and> settled (run overlap_schedule coalescer_init) 0 = Some (Returned None)"
    by (simp add: coalescer_eval)
  with cleanup_identity_guard
         [where s = "run overlap_schedule coalescer_init" and caller = 2 and key = "''k''"
            and future = 0 and out = "Returned None",
          THEN conjunct2, THEN conjunct2, THEN conjunct2, THEN conjunct2, THEN conjunct1]
  have "pending (resume 2 (run overlap_schedule coalescer_init))
          = cleanup ''k'' 0 (pending (run overlap_schedule coalescer_init)) \<and>
        returned (resume 2 (run overlap_schedule coalescer_init)) 2 = Some (Returned None) \<and>
        awaiting (resume 2 (run overlap_schedule coalescer_init)) 2 = None \<and>
        created (resume 2 (run overlap_schedule coalescer_init))
          = created (run overlap_schedule coalescer_init)"
    by (rule mp)
  then have w4: "pending (resume 2 (run overlap_schedule coalescer_init))
       = cleanup ''k'' 0 (pending (run overlap_schedule coalescer_init))"
    by (rule conjunct1)
  from w1 w2 w3 w4 show ?thesis
    by (intro conjI)
qed

subsection \<open>Claim C1: one fetch for concurrent callers\<close>

lemma cache_get_miss:
  "fst (cache_get now key ttl cache) = None \<Longrightarrow> valueless (snd (cache_get now key ttl cache) key)"
  by (auto simp: cache_get_def valueless_def split: option.splits if_splits)

lemma cache_get_valueless:
  "valueless (cache key) \<Longrightarrow>
   fst (cache_get now key ttl cache) = None \<and> valueless (snd (cache_get now key ttl cache) key)"
  by (auto simp: cache_get_def valueless_def split: option.splits if_splits)

lemma call_miss_join:
  "fst (cache_get now key ttl (co_cache s)) = None \<Longrightarrow> pending s key = Some f \<Longrightarrow>
   settled s f = None \<Longrightarrow>
   call caller key ttl now s =
     s\<lparr>co_cache := snd (cache_get now key ttl (co_cache s)),
       awaiting := (awaiting s)(caller \<mapsto> (key, f))\<rparr>"
  by (cases "cache_get now key ttl (co_cache s)") (simp add: call_def register_def)

lemma call_miss_new:
  "fst (cache_get now key ttl (co_cache s)) = None \<Longrightarrow> pending s key = None \<Longrightarrow>
   call caller key ttl now s =
     s\<lparr>co_cache := snd (cache_get now key ttl (co_cache s)),
       created := created s @ [key],
       pending := (pending s)(key \<mapsto> length (created s)),
       awaiting := (awaiting s)(caller \<mapsto> (key, length (created s)))\<rparr>"
  by (cases "cache_get now key ttl (co_cache s)") (simp add: call_def register_def Let_def)

text \<open>
  A caller that misses the cache after the task has ended, while the entry is still
  pending, does not wait: it returns the outcome of the task in its own step and removes
  the entry.
\<close>

lemma call_miss_done:
  "fst (cache_get now key ttl (co_cache s)) = None \<Longrightarrow> pending s key = Some f \<Longrightarrow>
   settled s f = Some out \<Longrightarrow>
   call caller key ttl now s =
     s\<lparr>co_cache := snd (cache_get now key ttl (co_cache s)),
       returned := (returned s)(caller \<mapsto> out),
       pending := (pending s)(key := None)\<rparr>"
  by (cases "cache_get now key ttl (co_cache s)") (simp add: call_def register_def cleanup_def)

text \<open>
  So callers that arrive after a failed task has ended are not callers of that fetch:
  in \<open>late_schedule\<close> caller 2 returns the failure of the first task and removes the
  entry, and caller 3 starts a second task, while caller 1 is still to be woken.
\<close>

lemma late_callers_start_again:
  "created (run late_schedule coalescer_init) = [''k'', ''k'']
   \<and> returned (run late_schedule coalescer_init) 2 = Some (Returned None)
   \<and> returned (run late_schedule coalescer_init) 3 = None
   \<and> awaiting (run late_schedule coalescer_init) 1 = Some (''k'', 0)
   \<and> awaiting (run late_schedule coalescer_init) 3 = Some (''k'', 1)
   \<and> pending (run late_schedule coalescer_init) ''k'' = Some 1"
  by (simp add: late_schedule_def coalescer_eval)

lemma run_append: "run (es @ fs) s = run fs (run es s)"
  by (simp add: run_def)

lemma run_Cons: "run (e # es) s = run es (step e s)"
  by (simp add: run_def)

lemma run_Nil: "run [] s = s"
  by (simp add: run_def)

text \<open>Only tasks that were created have an outcome, in every state the steps produce.\<close>

lemma step_settled_bound:
  "\<forall>f. settled s f \<noteq> None \<longrightarrow> f < length (created s) \<Longrightarrow>
   \<forall>f. settled (step ev s) f \<noteq> None \<longrightarrow> f < length (created (step ev s))"
proof (cases ev)
  case (Call caller key ttl now)
  assume "\<forall>f. settled s f \<noteq> None \<longrightarrow> f < length (created s)"
  then show ?thesis
    by (cases "cache_get now key ttl (co_cache s)")
       (auto simp: Call call_def register_def Let_def less_Suc_eq split: option.splits)
next
  case (Settle future e now)
  assume "\<forall>f. settled s f \<noteq> None \<longrightarrow> f < length (created s)"
  then show ?thesis
    by (cases e) (auto simp: Settle settle_def)
next
  case (Resume caller)
  assume "\<forall>f. settled s f \<noteq> None \<longrightarrow> f < length (created s)"
  then show ?thesis
    by (auto simp: Resume resume_def split: option.splits)
qed

lemma run_settled_bound:
  "\<forall>f. settled s f \<noteq> None \<longrightarrow> f < length (created s) \<Longrightarrow>
   \<forall>f. settled (run es s) f \<noteq> None \<longrightarrow> f < length (created (run es s))"
proof (induction es arbitrary: s)
  case Nil
  then show ?case by (simp add: run_Nil)
next
  case (Cons ev es)
  from Cons.IH [OF step_settled_bound [OF Cons.prems]] show ?case
    by (simp add: run_Cons)
qed

lemma first_call_in_flight:
  assumes "pending s key = None" and "fst (cache_get now key ttl (co_cache s)) = None"
    and "settled s (length (created s)) = None"
    and "\<forall>c \<in> A. awaiting s c = None"
  shows "in_flight key (created s) A {caller} (call caller key ttl now s)"
  using assms cache_get_miss [of now key ttl "co_cache s"]
  by (simp add: call_miss_new in_flight_def)

lemma join_in_flight:
  assumes "in_flight key created0 A cs s"
  shows "in_flight key created0 A (insert caller cs) (call caller key ttl now s)"
proof -
  have v: "valueless (co_cache s key)" and p: "pending s key = Some (length created0)"
    and u: "settled s (length created0) = None"
    using assms by (simp_all add: in_flight_def)
  from cache_get_valueless [of "co_cache s" key now ttl] v
  have miss: "fst (cache_get now key ttl (co_cache s)) = None"
    and v': "valueless (snd (cache_get now key ttl (co_cache s)) key)"
    by simp_all
  show ?thesis
    using assms v' by (auto simp: call_miss_join [OF miss p u] in_flight_def)
qed

lemma joins_in_flight:
  "in_flight key created0 A cs s \<Longrightarrow>
   in_flight key created0 A (cs \<union> fst ` set xs) (run (calls key xs) s)"
proof (induction xs arbitrary: cs s)
  case Nil
  then show ?case by (simp add: calls_def run_Nil)
next
  case (Cons x xs)
  obtain c ttl now where x: "x = (c, ttl, now)"
    by (cases x)
  have "in_flight key created0 A (insert c cs) (call c key ttl now s)"
    using Cons.prems by (rule join_in_flight)
  from Cons.IH [OF this] show ?case
    by (simp add: x calls_def run_Cons)
qed

lemma settle_waking:
  assumes "in_flight key created0 A A s" and "first \<in> A"
  shows "waking key created0 e A first {} (settle (length created0) e now s)"
proof -
  have en: "length created0 < length (created s)" "settled s (length created0) = None"
    using assms(1) by (simp_all add: in_flight_def)
  show ?thesis
    using assms en
    by (cases e) (auto simp: settle_def waking_def in_flight_def)
qed

lemma resume_waking:
  assumes "waking key created0 e A first woken s" and "caller \<in> A"
  shows "waking key created0 e A first (insert caller woken) (resume caller s)"
proof -
  have st: "settled s (length created0) = Some (result_of e)"
    using assms(1) by (simp add: waking_def)
  have "awaiting s caller = Some (key, length created0) \<or>
        (awaiting s caller = None \<and> returned s caller = Some (result_of e))"
    using assms by (simp add: waking_def)
  then show ?thesis
  proof
    assume aw: "awaiting s caller = Some (key, length created0)"
    have "resume caller s =
            s\<lparr>returned := (returned s)(caller \<mapsto> result_of e),
              awaiting := (awaiting s)(caller := None),
              pending := cleanup key (length created0) (pending s)\<rparr>"
      by (simp add: resume_def aw st)
    then show ?thesis
      using assms(1) by (auto simp: waking_def cleanup_def)
  next
    assume idle: "awaiting s caller = None \<and> returned s caller = Some (result_of e)"
    then have "resume caller s = s"
      by (simp add: resume_def)
    then show ?thesis
      using assms(1) idle by (auto simp: waking_def)
  qed
qed

lemma resumes_waking:
  "waking key created0 e A first woken s \<Longrightarrow> set ws \<subseteq> A \<Longrightarrow>
   waking key created0 e A first (woken \<union> set ws) (run (map Resume ws) s)"
proof (induction ws arbitrary: woken s)
  case Nil
  then show ?case by (simp add: run_Nil)
next
  case (Cons w ws)
  have "waking key created0 e A first (insert w woken) (resume w s)"
    using Cons.prems by (intro resume_waking) simp_all
  from Cons.IH [OF this] Cons.prems(2) show ?case
    by (simp add: run_Cons)
qed

lemma waking_done:
  assumes "waking key created0 e A first A s" and "first \<in> A"
  shows "created s = created0 @ [key] \<and> pending s key = None \<and>
         (\<forall>c \<in> A. returned s c = Some (result_of e))"
  using assms by (auto simp: waking_def)

text \<open>
  C1. Let no fetch for \<open>key\<close> be in flight, let caller \<open>c1\<close> call \<open>_make_request\<close> and
  miss the cache, and let further callers (\<open>rest\<close>) call for the same key while the fetch
  is in flight, in any number and with any TTLs and clock readings; then let the task of
  the fetch end and every caller be woken, in any order. (The number of the task to be
  created must not be that of an ended task, which holds in every state the steps
  produce.) Whatever way the fetch ends (a stored value, exhausted keys, an exception),
  exactly one task is created, so the factory runs once; every caller obtains the outcome
  of that task; and at the end the key has no pending entry, so that a later call that
  misses the cache creates a new task.
\<close>

theorem coalesced_fetch:
  assumes "pending s0 key = None"
    and "settled s0 (length (created s0)) = None"
    and "fst (cache_get now1 key ttl1 (co_cache s0)) = None"
    and "\<forall>c \<in> insert c1 (fst ` set rest). awaiting s0 c = None"
    and "set wake = insert c1 (fst ` set rest)"
    and "final = run (calls key ((c1, ttl1, now1) # rest) @ [Settle (length (created s0)) e t]
                       @ map Resume wake) s0"
  shows "created final = created s0 @ [key]
       \<and> (\<forall>c \<in> insert c1 (fst ` set rest). returned final c = Some (result_of e))
       \<and> pending final key = None
       \<and> (\<forall>c' ttl' now'. fst (cache_get now' key ttl' (co_cache final)) = None \<longrightarrow>
            created (call c' key ttl' now' final) = created final @ [key])"
proof -
  define A where "A = insert c1 (fst ` set rest)"
  define sa where "sa = call c1 key ttl1 now1 s0"
  define sb where "sb = run (calls key rest) sa"
  define sc where "sc = settle (length (created s0)) e t sb"
  have final: "final = run (map Resume wake) sc"
    by (simp add: assms(6) sc_def sb_def sa_def run_append run_Cons calls_def)
  have idle: "\<forall>c \<in> A. awaiting s0 c = None"
    using assms(4) by (simp add: A_def)
  have "in_flight key (created s0) A {c1} sa"
    unfolding sa_def using assms(1,3,2) idle by (rule first_call_in_flight)
  then have "in_flight key (created s0) A ({c1} \<union> fst ` set rest) sb"
    unfolding sb_def by (rule joins_in_flight)
  moreover have "{c1} \<union> fst ` set rest = A"
    by (auto simp: A_def)
  ultimately have "in_flight key (created s0) A A sb"
    by simp
  then have "waking key (created s0) e A c1 {} sc"
    unfolding sc_def by (rule settle_waking) (simp add: A_def)
  then have "waking key (created s0) e A c1 ({} \<union> set wake) final"
    unfolding final by (rule resumes_waking) (simp add: assms(5) A_def)
  then have "waking key (created s0) e A c1 A final"
    by (simp add: assms(5) A_def)
  from waking_done [OF this]
  have fin: "created final = created s0 @ [key]" "pending final key = None"
    "\<forall>c \<in> A. returned final c = Some (result_of e)"
    by (simp_all add: A_def)
  have retry: "created (call c' key ttl' now' final) = created final @ [key]"
    if "fst (cache_get now' key ttl' (co_cache final)) = None" for c' ttl' now'
    by (simp add: call_miss_new [OF that fin(2)])
  show ?thesis
    using fin retry unfolding A_def by blast
qed

theorem coalesced_fetch_witness:
  "created (run (burst_schedule (Stored (Some ''d''))) coalescer_init) = [''k'']
   \<and> returned (run (burst_schedule (Stored (Some ''d''))) coalescer_init) 1 = Some (Returned (Some ''d''))
   \<and> returned (run (burst_schedule (Stored (Some ''d''))) coalescer_init) 2 = Some (Returned (Some ''d''))
   \<and> returned (run (burst_schedule (Stored (Some ''d''))) coalescer_init) 3 = Some (Returned (Some ''d''))
   \<and> pending (run (burst_schedule (Stored (Some ''d''))) coalescer_init) ''k'' = None
   \<and> created (call 4 ''k'' 60 100 (run (burst_schedule (Stored (Some ''d''))) coalescer_init))
       = [''k'', ''k'']"
proof -
  have h1: "pending coalescer_init ''k'' = None"
    and h2: "settled coalescer_init (length (created coalescer_init)) = None"
    and h3: "fst (cache_get 0 ''k'' 60 (co_cache coalescer_init)) = None"
    and h4: "\<forall>c \<in> insert 1 (fst ` set [(2, 60 :: real, 0 :: real), (3, 60, 1)]).
               awaiting coalescer_init c = None"
    by (simp_all add: coalescer_init_def cache_get_def)
  have h5: "set [2, 1, 3 :: nat] = insert 1 (fst ` set [(2, 60 :: real, 0 :: real), (3, 60, 1)])"
    by auto
  have h6: "run (burst_schedule (Stored (Some ''d''))) coalescer_init =
            run (calls ''k'' ((1, 60, 0) # [(2, 60, 0), (3, 60, 1)])
                   @ [Settle (length (created coalescer_init)) (Stored (Some ''d'')) 2]
                   @ map Resume [2, 1, 3])
                coalescer_init"
    by (simp add: burst_schedule_def coalescer_init_def)
  have h7: "created coalescer_init = []"
    by (simp add: coalescer_init_def)
  have late: "fst (cache_get 100 ''k'' 60
                 (co_cache (run (burst_schedule (Stored (Some ''d''))) coalescer_init))) = None"
    by (simp add: burst_schedule_def calls_def coalescer_eval)
  from coalesced_fetch [OF h1 h2 h3 h4 h5 h6] late show ?thesis
    by (simp add: result_of_def h7)
qed

end
